theory Spec2Isabelle
  imports Main "HOL-Library.Word"
begin

section \<open>The memory of the C program\<close>

text \<open>
  \<^verbatim>\<open>tools/tools.h\<close> works on C pointers: an array of strings is a struct holding a
  pointer to a heap block of \<^verbatim>\<open>const char *\<close> slots, and every helper reads or writes
  through pointers. The embedding keeps this: a pointer is \<open>Null\<close> or a block together
  with an offset into it, a block is an array of bytes or an array of string pointers,
  and a block that has been freed is gone from the memory (block numbers are never
  reused, so a stale pointer is recognised as such).

  Platform: LP64, as on the hosts the tools are built on: \<^verbatim>\<open>unsigned int\<close> and
  \<^verbatim>\<open>int\<close> have 32 bits, \<^verbatim>\<open>size_t\<close> has 64 bits and a pointer has 8 bytes.
\<close>

type_synonym blk = nat

datatype ptr = Null | Ptr blk nat

datatype obj = Bytes "char list" | Slots "ptr list"

text \<open>
  What a call can end in besides returning: \<open>Exit1\<close> is \<^verbatim>\<open>exit(1)\<close> after
  "Virtual memory exhausted." (the only error the source handles), \<open>Fault\<close> is an access
  the C standard leaves undefined (a null, stale or out-of-bounds pointer).
\<close>

datatype error = Exit1 | Fault

text \<open>
  \<^verbatim>\<open>
  struct strarray
  {
      unsigned int count;  /* strings in use */
      unsigned int size;   /* total allocated size */
      const char **str;
  };
  \<close>
  The field \<^verbatim>\<open>size\<close> is \<open>size_sa\<close> here (\<open>size\<close> is a constant of HOL).
\<close>

record strarray =
  count :: "32 word"
  size_sa :: "32 word"
  str :: ptr

text \<open>
  The state of the program: the \<^verbatim>\<open>struct strarray\<close> variables that functions are
  handed by address (\<open>vars\<close>), the heap blocks (\<open>mem\<close>), the next unused block number,
  the number of bytes the allocator can still hand out, the position that
  \<^verbatim>\<open>strtok\<close> remembers between calls, and the address of the next local
  \<^verbatim>\<open>struct strarray\<close> variable (locals live at addresses below \<open>sp\<close>).
\<close>

record state =
  vars :: "nat \<rightharpoonup> strarray"
  mem :: "blk \<rightharpoonup> obj"
  nxt :: blk
  avail :: nat
  tok_save :: ptr
  sp :: nat

abbreviation NUL :: char where
  "NUL \<equiv> CHR 0x00"

text \<open>\<^verbatim>\<open>static const struct strarray empty_strarray;\<close> (zero-initialised, constant).\<close>

definition empty_strarray :: strarray where
  "empty_strarray = \<lparr>count = 0, size_sa = 0, str = Null\<rparr>"

subsection \<open>The allocator of the C library\<close>

text \<open>
  \<^verbatim>\<open>malloc\<close>, \<^verbatim>\<open>realloc\<close> and \<^verbatim>\<open>free\<close> are not part of the source; they follow the
  C standard. An allocation of \<open>n\<close> bytes succeeds when \<open>n\<close> bytes are available and
  returns a new block; otherwise it returns \<open>Null\<close> and changes nothing. The bytes of a
  new block are indeterminate in C; here they are \<open>fill\<close>, and new slots are \<open>Null\<close>.
\<close>

definition fill :: char where
  "fill = CHR 0xAA"

fun obj_bytes :: "obj \<Rightarrow> nat" where
  "obj_bytes (Bytes bs) = length bs"
| "obj_bytes (Slots ps) = 8 * length ps"

definition alloc :: "state \<Rightarrow> nat \<Rightarrow> obj \<Rightarrow> ptr \<times> state" where
  "alloc st n ob =
     (if n \<le> avail st
      then (Ptr (nxt st) 0,
            st\<lparr>mem := (mem st)(nxt st \<mapsto> ob), nxt := Suc (nxt st), avail := avail st - n\<rparr>)
      else (Null, st))"

definition malloc :: "state \<Rightarrow> nat \<Rightarrow> ptr \<times> state" where
  "malloc st n = alloc st n (Bytes (replicate n fill))"

definition free :: "state \<Rightarrow> ptr \<Rightarrow> error + state" where
  "free st p =
     (case p of
        Null \<Rightarrow> Inr st
      | Ptr b off \<Rightarrow>
          (case mem st b of
             None \<Rightarrow> Inl Fault
           | Some ob \<Rightarrow>
               if off = 0
               then Inr (st\<lparr>mem := (mem st)(b := None), avail := avail st + obj_bytes ob\<rparr>)
               else Inl Fault))"

text \<open>
  \<^verbatim>\<open>realloc\<close> on a block of string pointers, the only use the source makes of it. As
  the standard describes it: a new object of the new size is allocated, the old slots
  are copied as far as they fit, and the old object is deallocated; when the new object
  cannot be allocated the result is \<open>Null\<close> and the old object stays. With a null
  pointer the call is \<^verbatim>\<open>malloc(n)\<close>, which in glibc returns a new block also for 0
  bytes; a request for 0 bytes on a block frees it and returns \<open>Null\<close> (glibc).
\<close>

definition realloc :: "state \<Rightarrow> ptr \<Rightarrow> nat \<Rightarrow> error + ptr \<times> state" where
  "realloc st p n =
     (case p of
        Null \<Rightarrow> Inr (alloc st n (Slots (replicate (n div 8) Null)))
      | Ptr b off \<Rightarrow>
          if n = 0
          then (case free st p of Inl e \<Rightarrow> Inl e | Inr st' \<Rightarrow> Inr (Null, st'))
          else
            (case mem st b of
               Some (Slots ps) \<Rightarrow>
                 if off = 0
                 then (case alloc st n
                              (Slots (take (n div 8) ps @ replicate (n div 8 - length ps) Null)) of
                         (Null, _) \<Rightarrow> Inr (Null, st)
                       | (Ptr b' off', st') \<Rightarrow>
                           (case free st' p of
                              Inl e \<Rightarrow> Inl e
                            | Inr st'' \<Rightarrow> Inr (Ptr b' off', st'')))
                 else Inl Fault
             | _ \<Rightarrow> Inl Fault))"

subsection \<open>Allocation helpers of the source\<close>

text \<open>
  \<^verbatim>\<open>
  static inline void *xmalloc( size_t size )
  {
      void *res = malloc( size ? size : 1 );
      if (res == NULL) { fprintf( stderr, "Virtual memory exhausted.\n" ); exit(1); }
      return res;
  }
  \<close>
\<close>

definition xmalloc :: "state \<Rightarrow> nat \<Rightarrow> error + ptr \<times> state" where
  "xmalloc st n =
     (case malloc st (if n \<noteq> 0 then n else 1) of
        (Null, _) \<Rightarrow> Inl Exit1
      | (Ptr b off, st') \<Rightarrow> Inr (Ptr b off, st'))"

text \<open>
  \<^verbatim>\<open>
  static inline void *xrealloc (void *ptr, size_t size)
  {
      void *res = realloc( ptr, size );
      if (size && res == NULL) { fprintf( stderr, "Virtual memory exhausted.\n" ); exit(1); }
      return res;
  }
  \<close>
\<close>

definition xrealloc :: "state \<Rightarrow> ptr \<Rightarrow> nat \<Rightarrow> error + ptr \<times> state" where
  "xrealloc st p n =
     (case realloc st p n of
        Inl e \<Rightarrow> Inl e
      | Inr (res, st') \<Rightarrow> if n \<noteq> 0 \<and> res = Null then Inl Exit1 else Inr (res, st'))"

subsection \<open>Strings of the C library\<close>

text \<open>
  The string at a pointer: the bytes from the pointer up to the first NUL of its block.
  A pointer that is null, stale, outside its block or not followed by a NUL holds no
  string.
\<close>

definition cstring :: "state \<Rightarrow> ptr \<Rightarrow> string option" where
  "cstring st p =
     (case p of
        Null \<Rightarrow> None
      | Ptr b off \<Rightarrow>
          (case mem st b of
             Some (Bytes bs) \<Rightarrow>
               if NUL \<in> set (drop off bs)
               then Some (takeWhile (\<lambda>c. c \<noteq> NUL) (drop off bs))
               else None
           | _ \<Rightarrow> None))"

definition strlen :: "state \<Rightarrow> ptr \<Rightarrow> error + nat" where
  "strlen st p = (case cstring st p of None \<Rightarrow> Inl Fault | Some s \<Rightarrow> Inr (length s))"

text \<open>Writing bytes at a pointer; running over the end of the block is a fault.\<close>

definition write_bytes :: "state \<Rightarrow> ptr \<Rightarrow> char list \<Rightarrow> error + state" where
  "write_bytes st p cs =
     (case p of
        Null \<Rightarrow> Inl Fault
      | Ptr b off \<Rightarrow>
          (case mem st b of
             Some (Bytes bs) \<Rightarrow>
               if off + length cs \<le> length bs
               then Inr (st\<lparr>mem := (mem st)
                          (b \<mapsto> Bytes (take off bs @ cs @ drop (off + length cs) bs))\<rparr>)
               else Inl Fault
           | _ \<Rightarrow> Inl Fault))"

text \<open>\<^verbatim>\<open>strcpy(dst, src)\<close>: copies the string and its NUL, returns \<^verbatim>\<open>dst\<close>.\<close>

definition strcpy :: "state \<Rightarrow> ptr \<Rightarrow> ptr \<Rightarrow> error + ptr \<times> state" where
  "strcpy st dst src =
     (case cstring st src of
        None \<Rightarrow> Inl Fault
      | Some s \<Rightarrow>
          (case write_bytes st dst (s @ [NUL]) of
             Inl e \<Rightarrow> Inl e
           | Inr st' \<Rightarrow> Inr (dst, st')))"

text \<open>
  \<^verbatim>\<open>strcmp\<close>: the difference of the first two bytes that differ, read as unsigned
  chars; 0 when the strings are equal.
\<close>

fun strcmp_chars :: "string \<Rightarrow> string \<Rightarrow> int" where
  "strcmp_chars [] [] = 0"
| "strcmp_chars [] (y # ys) = - of_char y"
| "strcmp_chars (x # xs) [] = of_char x"
| "strcmp_chars (x # xs) (y # ys) =
     (if x = y then strcmp_chars xs ys else of_char x - of_char y)"

definition strcmp :: "state \<Rightarrow> ptr \<Rightarrow> ptr \<Rightarrow> error + int" where
  "strcmp st p q =
     (case cstring st p of
        None \<Rightarrow> Inl Fault
      | Some s \<Rightarrow>
          (case cstring st q of
             None \<Rightarrow> Inl Fault
           | Some t \<Rightarrow> Inr (strcmp_chars s t)))"

text \<open>
  \<^verbatim>\<open>
  static inline char *xstrdup( const char *str )
  {
      return strcpy( xmalloc( strlen(str)+1 ), str );
  }
  \<close>
\<close>

definition xstrdup :: "state \<Rightarrow> ptr \<Rightarrow> error + ptr \<times> state" where
  "xstrdup st s =
     (case strlen st s of
        Inl e \<Rightarrow> Inl e
      | Inr n \<Rightarrow>
          (case xmalloc st (n + 1) of
             Inl e \<Rightarrow> Inl e
           | Inr (p, st') \<Rightarrow> strcpy st' p s))"

section \<open>String arrays\<close>

text \<open>Reading and writing \<^verbatim>\<open>p[i]\<close> for a \<^verbatim>\<open>const char **p\<close>.\<close>

definition load_slot :: "state \<Rightarrow> ptr \<Rightarrow> nat \<Rightarrow> error + ptr" where
  "load_slot st p i =
     (case p of
        Null \<Rightarrow> Inl Fault
      | Ptr b off \<Rightarrow>
          (case mem st b of
             Some (Slots ps) \<Rightarrow> if off + i < length ps then Inr (ps ! (off + i)) else Inl Fault
           | _ \<Rightarrow> Inl Fault))"

definition store_slot :: "state \<Rightarrow> ptr \<Rightarrow> nat \<Rightarrow> ptr \<Rightarrow> error + state" where
  "store_slot st p i v =
     (case p of
        Null \<Rightarrow> Inl Fault
      | Ptr b off \<Rightarrow>
          (case mem st b of
             Some (Slots ps) \<Rightarrow>
               if off + i < length ps
               then Inr (st\<lparr>mem := (mem st)(b \<mapsto> Slots (ps[off + i := v]))\<rparr>)
               else Inl Fault
           | _ \<Rightarrow> Inl Fault))"

text \<open>
  \<^verbatim>\<open>
  static inline void strarray_add( struct strarray *array, const char *str )
  {
      if (array->count == array->size)
      {
          if (array->size) array->size *= 2;
          else array->size = 16;
          array->str = xrealloc( array->str, sizeof(array->str[0]) * array->size );
      }
      array->str[array->count++] = str;
  }
  \<close>
  The argument \<open>array\<close> is the address of the struct in \<open>vars\<close>; the struct is updated
  there. \<^verbatim>\<open>array->size *= 2\<close> is a multiplication of 32-bit unsigned integers and
  wraps; the byte count handed to \<^verbatim>\<open>xrealloc\<close> is a \<^verbatim>\<open>size_t\<close> and cannot wrap.
\<close>

definition strarray_add :: "state \<Rightarrow> nat \<Rightarrow> ptr \<Rightarrow> error + state" where
  "strarray_add st array s =
     (case vars st array of
        None \<Rightarrow> Inl Fault
      | Some a \<Rightarrow>
          (case (if count a = size_sa a
                 then (let sz = (if size_sa a \<noteq> 0 then size_sa a * 2 else 16) in
                       case xrealloc st (str a) (8 * unat sz) of
                         Inl e \<Rightarrow> Inl e
                       | Inr (q, st') \<Rightarrow> Inr (a\<lparr>size_sa := sz, str := q\<rparr>, st'))
                 else Inr (a, st)) of
             Inl e \<Rightarrow> Inl e
           | Inr (a', st') \<Rightarrow>
               (case store_slot st' (str a') (unat (count a')) s of
                  Inl e \<Rightarrow> Inl e
                | Inr st'' \<Rightarrow>
                    Inr (st''\<lparr>vars := (vars st'')(array \<mapsto> a'\<lparr>count := count a' + 1\<rparr>)\<rparr>))))"

text \<open>
  \<^verbatim>\<open>
  static inline int strarray_exists( const struct strarray *array, const char *str )
  {
      unsigned int i;
      for (i = 0; i < array->count; i++) if (!strcmp( array->str[i], str )) return 1;
      return 0;
  }
  \<close>
\<close>

function exists_loop :: "state \<Rightarrow> strarray \<Rightarrow> ptr \<Rightarrow> 32 word \<Rightarrow> error + int" where
  "exists_loop st a s i =
     (if i < count a
      then (case load_slot st (str a) (unat i) of
              Inl e \<Rightarrow> Inl e
            | Inr p \<Rightarrow>
                (case strcmp st p s of
                   Inl e \<Rightarrow> Inl e
                 | Inr c \<Rightarrow> if c = 0 then Inr 1 else exists_loop st a s (i + 1)))
      else Inr 0)"
  by pat_completeness auto
termination
proof (relation "measure (\<lambda>(st, a, s, i). unat (count a) - unat i)")
  show "wf (measure (\<lambda>(st, a, s, i). unat (count a) - unat i))"
    by simp
next
  fix st :: state and a :: strarray and s :: ptr and i :: "32 word" and p c
  assume "i < count a"
  then have lt: "unat i < unat (count a)"
    by (simp add: word_less_nat_alt)
  moreover have "unat (count a) < 2 ^ 32"
    using unsigned_less [of "count a"] by simp
  ultimately have "unat i + 1 < 2 ^ 32"
    by linarith
  then have "unat (i + 1) = unat i + 1"
    by (simp add: unat_word_ariths)
  with lt show "((st, a, s, i + 1), (st, a, s, i)) \<in> measure (\<lambda>(st, a, s, i). unat (count a) - unat i)"
    by simp
qed

declare exists_loop.simps [simp del]

definition strarray_exists :: "state \<Rightarrow> nat \<Rightarrow> ptr \<Rightarrow> error + int" where
  "strarray_exists st array s =
     (case vars st array of
        None \<Rightarrow> Inl Fault
      | Some a \<Rightarrow> exists_loop st a s 0)"

text \<open>
  \<^verbatim>\<open>
  static inline void strarray_addall( struct strarray *array, struct strarray added )
  {
      unsigned int i;
      for (i = 0; i < added.count; i++) strarray_add( array, added.str[i] );
  }
  \<close>
  \<open>added\<close> is passed by value: its three fields are a copy made at the call, and
  \<^verbatim>\<open>added.str\<close> still points to the block the caller's array pointed to then.
\<close>

function addall_loop :: "state \<Rightarrow> nat \<Rightarrow> strarray \<Rightarrow> 32 word \<Rightarrow> error + state" where
  "addall_loop st array added i =
     (if i < count added
      then (case load_slot st (str added) (unat i) of
              Inl e \<Rightarrow> Inl e
            | Inr p \<Rightarrow>
                (case strarray_add st array p of
                   Inl e \<Rightarrow> Inl e
                 | Inr st' \<Rightarrow> addall_loop st' array added (i + 1)))
      else Inr st)"
  by pat_completeness auto
termination
proof (relation "measure (\<lambda>(st, array, added, i). unat (count added) - unat i)")
  show "wf (measure (\<lambda>(st, array, added, i). unat (count added) - unat i))"
    by simp
next
  fix st st' :: state and array :: nat and added :: strarray and i :: "32 word" and p
  assume "i < count added"
  then have lt: "unat i < unat (count added)"
    by (simp add: word_less_nat_alt)
  moreover have "unat (count added) < 2 ^ 32"
    using unsigned_less [of "count added"] by simp
  ultimately have "unat i + 1 < 2 ^ 32"
    by linarith
  then have "unat (i + 1) = unat i + 1"
    by (simp add: unat_word_ariths)
  with lt show "((st', array, added, i + 1), (st, array, added, i))
      \<in> measure (\<lambda>(st, array, added, i). unat (count added) - unat i)"
    by simp
qed

declare addall_loop.simps [simp del]

definition strarray_addall :: "state \<Rightarrow> nat \<Rightarrow> strarray \<Rightarrow> error + state" where
  "strarray_addall st array added = addall_loop st array added 0"

text \<open>
  \<^verbatim>\<open>
  static inline void strarray_add_uniq( struct strarray *array, const char *str )
  {
      if (!strarray_exists( array, str )) strarray_add( array, str );
  }
  \<close>
\<close>

definition strarray_add_uniq :: "state \<Rightarrow> nat \<Rightarrow> ptr \<Rightarrow> error + state" where
  "strarray_add_uniq st array s =
     (case strarray_exists st array s of
        Inl e \<Rightarrow> Inl e
      | Inr c \<Rightarrow> if c = 0 then strarray_add st array s else Inr st)"

text \<open>
  \<^verbatim>\<open>
  static inline void strarray_addall_uniq( struct strarray *array, struct strarray added )
  {
      unsigned int i;
      for (i = 0; i < added.count; i++) strarray_add_uniq( array, added.str[i] );
  }
  \<close>
\<close>

function addall_uniq_loop :: "state \<Rightarrow> nat \<Rightarrow> strarray \<Rightarrow> 32 word \<Rightarrow> error + state" where
  "addall_uniq_loop st array added i =
     (if i < count added
      then (case load_slot st (str added) (unat i) of
              Inl e \<Rightarrow> Inl e
            | Inr p \<Rightarrow>
                (case strarray_add_uniq st array p of
                   Inl e \<Rightarrow> Inl e
                 | Inr st' \<Rightarrow> addall_uniq_loop st' array added (i + 1)))
      else Inr st)"
  by pat_completeness auto
termination
proof (relation "measure (\<lambda>(st, array, added, i). unat (count added) - unat i)")
  show "wf (measure (\<lambda>(st, array, added, i). unat (count added) - unat i))"
    by simp
next
  fix st st' :: state and array :: nat and added :: strarray and i :: "32 word" and p
  assume "i < count added"
  then have lt: "unat i < unat (count added)"
    by (simp add: word_less_nat_alt)
  moreover have "unat (count added) < 2 ^ 32"
    using unsigned_less [of "count added"] by simp
  ultimately have "unat i + 1 < 2 ^ 32"
    by linarith
  then have "unat (i + 1) = unat i + 1"
    by (simp add: unat_word_ariths)
  with lt show "((st', array, added, i + 1), (st, array, added, i))
      \<in> measure (\<lambda>(st, array, added, i). unat (count added) - unat i)"
    by simp
qed

declare addall_uniq_loop.simps [simp del]

definition strarray_addall_uniq :: "state \<Rightarrow> nat \<Rightarrow> strarray \<Rightarrow> error + state" where
  "strarray_addall_uniq st array added = addall_uniq_loop st array added 0"

text \<open>
  A local \<^verbatim>\<open>struct strarray\<close> variable: it gets the address \<open>sp\<close> when its scope is
  entered and is gone when the scope is left.
\<close>

definition push_var :: "state \<Rightarrow> strarray \<Rightarrow> nat \<times> state" where
  "push_var st a = (sp st, st\<lparr>vars := (vars st)(sp st \<mapsto> a), sp := Suc (sp st)\<rparr>)"

definition pop_var :: "state \<Rightarrow> nat \<Rightarrow> state" where
  "pop_var st v = st\<lparr>vars := (vars st)(v := None), sp := v\<rparr>"

definition ptr_add :: "ptr \<Rightarrow> nat \<Rightarrow> ptr" where
  "ptr_add p n = (case p of Null \<Rightarrow> Null | Ptr b off \<Rightarrow> Ptr b (off + n))"

text \<open>
  \<^verbatim>\<open>strtok(s, delim)\<close> of the C library, after the C standard (7.24.5.8): the search
  starts at \<open>s\<close>, or at the saved position when \<open>s\<close> is null; it skips the characters
  that are in \<open>delim\<close>; when the string ends there, the result is null; otherwise the
  token starts there and runs to the next character of \<open>delim\<close>, which is overwritten
  by NUL, or to the end of the string; the position after the token is saved.
\<close>

definition strtok :: "state \<Rightarrow> ptr \<Rightarrow> ptr \<Rightarrow> error + ptr \<times> state" where
  "strtok st s delim =
     (let start = (if s \<noteq> Null then s else tok_save st) in
      case cstring st delim of
        None \<Rightarrow> Inl Fault
      | Some d \<Rightarrow>
          (case cstring st start of
             None \<Rightarrow> Inl Fault
           | Some text \<Rightarrow>
               (let skip = length (takeWhile (\<lambda>c. c \<in> set d) text);
                    tok = ptr_add start skip;
                    len = length (takeWhile (\<lambda>c. c \<notin> set d) (drop skip text))
                in if skip = length text then Inr (Null, st\<lparr>tok_save := tok\<rparr>)
                   else if skip + len = length text
                   then Inr (tok, st\<lparr>tok_save := ptr_add tok len\<rparr>)
                   else (case write_bytes st (ptr_add tok len) [NUL] of
                           Inl e \<Rightarrow> Inl e
                         | Inr st' \<Rightarrow> Inr (tok, st'\<lparr>tok_save := ptr_add tok (len + 1)\<rparr>)))))"

text \<open>
  \<^verbatim>\<open>
  static inline struct strarray strarray_fromstring( const char *str, const char *delim )
  {
      struct strarray array = empty_strarray;
      char *buf = xstrdup( str );
      const char *tok;

      for (tok = strtok( buf, delim ); tok; tok = strtok( NULL, delim ))
          strarray_add( &array, xstrdup( tok ));
      free( buf );
      return array;
  }
  \<close>
  The loop ends when \<^verbatim>\<open>strtok\<close> returns null; that it always does is a theorem below,
  not part of the definition.
\<close>

partial_function (option) fromstring_loop ::
  "state \<Rightarrow> nat \<Rightarrow> ptr \<Rightarrow> ptr \<Rightarrow> (error + state) option" where
  "fromstring_loop st array delim tok =
     (if tok \<noteq> Null
      then (case xstrdup st tok of
              Inl e \<Rightarrow> Some (Inl e)
            | Inr (p, st1) \<Rightarrow>
                (case strarray_add st1 array p of
                   Inl e \<Rightarrow> Some (Inl e)
                 | Inr st2 \<Rightarrow>
                     (case strtok st2 Null delim of
                        Inl e \<Rightarrow> Some (Inl e)
                      | Inr (tok', st3) \<Rightarrow> fromstring_loop st3 array delim tok')))
      else Some (Inr st))"

definition strarray_fromstring ::
  "state \<Rightarrow> ptr \<Rightarrow> ptr \<Rightarrow> (error + strarray \<times> state) option" where
  "strarray_fromstring st s delim =
     (case push_var st empty_strarray of
        (array, st0) \<Rightarrow>
          (case xstrdup st0 s of
             Inl e \<Rightarrow> Some (Inl e)
           | Inr (buf, st1) \<Rightarrow>
               (case strtok st1 buf delim of
                  Inl e \<Rightarrow> Some (Inl e)
                | Inr (tok, st2) \<Rightarrow>
                    (case fromstring_loop st2 array delim tok of
                       None \<Rightarrow> None
                     | Some (Inl e) \<Rightarrow> Some (Inl e)
                     | Some (Inr st3) \<Rightarrow>
                         (case free st3 buf of
                            Inl e \<Rightarrow> Some (Inl e)
                          | Inr st4 \<Rightarrow>
                              (case vars st4 array of
                                 None \<Rightarrow> Some (Inl Fault)
                               | Some a \<Rightarrow> Some (Inr (a, pop_var st4 array))))))))"

text \<open>
  \<^verbatim>\<open>strcat(dst, src)\<close> of the C library: writes the string at \<open>src\<close> and its NUL
  over the NUL that ends the string at \<open>dst\<close>, returns \<open>dst\<close>.
\<close>

definition strcat :: "state \<Rightarrow> ptr \<Rightarrow> ptr \<Rightarrow> error + ptr \<times> state" where
  "strcat st dst src =
     (case cstring st dst of
        None \<Rightarrow> Inl Fault
      | Some d \<Rightarrow>
          (case cstring st src of
             None \<Rightarrow> Inl Fault
           | Some s \<Rightarrow>
               (case write_bytes st (ptr_add dst (length d)) (s @ [NUL]) of
                  Inl e \<Rightarrow> Inl e
                | Inr st' \<Rightarrow> Inr (dst, st'))))"

text \<open>
  The string literal \<^verbatim>\<open>""\<close> of \<^verbatim>\<open>strarray_tostring\<close> is an object of static storage;
  it is block 0 of the memory.
\<close>

definition lit_empty :: ptr where
  "lit_empty = Ptr 0 0"

text \<open>
  \<^verbatim>\<open>
  static inline char *strarray_tostring( struct strarray array, const char *sep )
  {
      char *str;
      unsigned int i, len = 1 + (array.count - 1) * strlen(sep);

      if (!array.count) return xstrdup("");
      for (i = 0; i < array.count; i++) len += strlen( array.str[i] );
      str = xmalloc( len );
      strcpy( str, array.str[0] );
      for (i = 1; i < array.count; i++)
      {
          strcat( str, sep );
          strcat( str, array.str[i] );
      }
      return str;
  }
  \<close>
  \<^verbatim>\<open>len\<close> is an \<^verbatim>\<open>unsigned int\<close>: every sum is cut to 32 bits. The local
  \<^verbatim>\<open>str\<close> is \<open>res\<close> here.
\<close>

function tostring_len :: "state \<Rightarrow> strarray \<Rightarrow> 32 word \<Rightarrow> 32 word \<Rightarrow> error + 32 word" where
  "tostring_len st a i len =
     (if i < count a
      then (case load_slot st (str a) (unat i) of
              Inl e \<Rightarrow> Inl e
            | Inr p \<Rightarrow>
                (case strlen st p of
                   Inl e \<Rightarrow> Inl e
                 | Inr n \<Rightarrow> tostring_len st a (i + 1) (len + of_nat n)))
      else Inr len)"
  by pat_completeness auto
termination
proof (relation "measure (\<lambda>(st, a, i, len). unat (count a) - unat i)")
  show "wf (measure (\<lambda>(st, a, i, len). unat (count a) - unat i))"
    by simp
next
  fix st :: state and a :: strarray and i len :: "32 word" and p and n :: nat
  assume "i < count a"
  then have lt: "unat i < unat (count a)"
    by (simp add: word_less_nat_alt)
  moreover have "unat (count a) < 2 ^ 32"
    using unsigned_less [of "count a"] by simp
  ultimately have "unat i + 1 < 2 ^ 32"
    by linarith
  then have "unat (i + 1) = unat i + 1"
    by (simp add: unat_word_ariths)
  with lt show "((st, a, i + 1, len + of_nat n), (st, a, i, len))
      \<in> measure (\<lambda>(st, a, i, len). unat (count a) - unat i)"
    by simp
qed

declare tostring_len.simps [simp del]

function tostring_cat :: "state \<Rightarrow> strarray \<Rightarrow> ptr \<Rightarrow> ptr \<Rightarrow> 32 word \<Rightarrow> error + state" where
  "tostring_cat st a res sep i =
     (if i < count a
      then (case strcat st res sep of
              Inl e \<Rightarrow> Inl e
            | Inr (r1, st1) \<Rightarrow>
                (case load_slot st1 (str a) (unat i) of
                   Inl e \<Rightarrow> Inl e
                 | Inr p \<Rightarrow>
                     (case strcat st1 res p of
                        Inl e \<Rightarrow> Inl e
                      | Inr (r2, st2) \<Rightarrow> tostring_cat st2 a res sep (i + 1))))
      else Inr st)"
  by pat_completeness auto
termination
proof (relation "measure (\<lambda>(st, a, res, sep, i). unat (count a) - unat i)")
  show "wf (measure (\<lambda>(st, a, res, sep, i). unat (count a) - unat i))"
    by simp
next
  fix st st2 :: state and a :: strarray and res sep :: ptr and i :: "32 word"
  assume "i < count a"
  then have lt: "unat i < unat (count a)"
    by (simp add: word_less_nat_alt)
  moreover have "unat (count a) < 2 ^ 32"
    using unsigned_less [of "count a"] by simp
  ultimately have "unat i + 1 < 2 ^ 32"
    by linarith
  then have "unat (i + 1) = unat i + 1"
    by (simp add: unat_word_ariths)
  with lt show "((st2, a, res, sep, i + 1), (st, a, res, sep, i))
      \<in> measure (\<lambda>(st, a, res, sep, i). unat (count a) - unat i)"
    by simp
qed

declare tostring_cat.simps [simp del]

definition strarray_tostring :: "state \<Rightarrow> strarray \<Rightarrow> ptr \<Rightarrow> error + ptr \<times> state" where
  "strarray_tostring st array sep =
     (case strlen st sep of
        Inl e \<Rightarrow> Inl e
      | Inr n \<Rightarrow>
          (let len = 1 + (count array - 1) * of_nat n in
           if count array = 0 then xstrdup st lit_empty
           else (case tostring_len st array 0 len of
                   Inl e \<Rightarrow> Inl e
                 | Inr len' \<Rightarrow>
                     (case xmalloc st (unat len') of
                        Inl e \<Rightarrow> Inl e
                      | Inr (res, st1) \<Rightarrow>
                          (case load_slot st1 (str array) 0 of
                             Inl e \<Rightarrow> Inl e
                           | Inr p \<Rightarrow>
                               (case strcpy st1 res p of
                                  Inl e \<Rightarrow> Inl e
                                | Inr (r, st2) \<Rightarrow>
                                    (case tostring_cat st2 array res sep 1 of
                                       Inl e \<Rightarrow> Inl e
                                     | Inr st3 \<Rightarrow> Inr (res, st3))))))))"

text \<open>
  \<^verbatim>\<open>bsearch(key, base, nmemb, size, compar)\<close> of the C library, as glibc implements
  it: a binary search that calls \<^verbatim>\<open>compar(key, &base[idx])\<close> and returns the address
  of a slot for which the result is 0, or null. The comparison function of the source
  has the type \<^verbatim>\<open>int (*)(const char **, const char **)\<close>; \<open>func\<close> is that function
  on the two string pointers its arguments point to.
\<close>

function bsearch_loop ::
  "(ptr \<Rightarrow> ptr \<Rightarrow> int) \<Rightarrow> state \<Rightarrow> ptr \<Rightarrow> ptr \<Rightarrow> nat \<Rightarrow> nat \<Rightarrow> error + ptr" where
  "bsearch_loop func st key base l u =
     (if l < u
      then (case load_slot st base ((l + u) div 2) of
              Inl e \<Rightarrow> Inl e
            | Inr p \<Rightarrow>
                if func key p < 0 then bsearch_loop func st key base l ((l + u) div 2)
                else if func key p > 0 then bsearch_loop func st key base ((l + u) div 2 + 1) u
                else Inr (ptr_add base ((l + u) div 2)))
      else Inr Null)"
  by pat_completeness auto
termination
  by (relation "measure (\<lambda>(func, st, key, base, l, u). u - l)") auto

declare bsearch_loop.simps [simp del]

definition bsearch :: "state \<Rightarrow> ptr \<Rightarrow> ptr \<Rightarrow> nat \<Rightarrow> (ptr \<Rightarrow> ptr \<Rightarrow> int) \<Rightarrow> error + ptr" where
  "bsearch st key base nmemb func = bsearch_loop func st key base 0 nmemb"

text \<open>
  \<^verbatim>\<open>
  static inline const char *strarray_bsearch( const struct strarray *array, const char *str,
                                              int (*func)(const char **, const char **) )
  {
      char **res = NULL;

      if (array->count) res = bsearch( &str, array->str, array->count, sizeof(*array->str), (void *)func );
      return res ? *res : NULL;
  }
  \<close>
\<close>

definition strarray_bsearch ::
  "state \<Rightarrow> nat \<Rightarrow> ptr \<Rightarrow> (ptr \<Rightarrow> ptr \<Rightarrow> int) \<Rightarrow> error + ptr" where
  "strarray_bsearch st array s func =
     (case vars st array of
        None \<Rightarrow> Inl Fault
      | Some a \<Rightarrow>
          (case (if count a \<noteq> 0 then bsearch st s (str a) (unat (count a)) func
                 else Inr Null) of
             Inl e \<Rightarrow> Inl e
           | Inr res \<Rightarrow> if res \<noteq> Null then load_slot st res 0 else Inr Null))"

section \<open>Formatting\<close>

text \<open>
  \<^verbatim>\<open>vsnprintf(p, size, fmt, ap)\<close> of the C library. What it does with a format and its
  arguments is given by two parameters: \<open>out\<close>, the text the format renders to, and
  \<open>ret\<close>, the \<^verbatim>\<open>int\<close> it returns for each buffer size (the length of \<open>out\<close> in C99,
  -1 for a buffer that is too small in older libraries, a negative number on an error).
  It writes as much of \<open>out\<close> as fits in \<open>size - 1\<close> bytes, and a NUL.
\<close>

definition vsnprintf ::
  "(nat \<Rightarrow> 32 word) \<Rightarrow> string \<Rightarrow> state \<Rightarrow> ptr \<Rightarrow> nat \<Rightarrow> error + 32 word \<times> state" where
  "vsnprintf ret out st p n =
     (if n = 0 then Inr (ret n, st)
      else (case write_bytes st p (take (n - 1) out @ [NUL]) of
              Inl e \<Rightarrow> Inl e
            | Inr st' \<Rightarrow> Inr (ret n, st')))"

text \<open>
  \<^verbatim>\<open>
  static inline char *strmake( const char* fmt, ... )
  {
      int n;
      size_t size = 100;
      va_list ap;

      for (;;)
      {
          char *p = xmalloc( size );
          va_start( ap, fmt );
          n = vsnprintf( p, size, fmt, ap );
          va_end( ap );
          if (n == -1) size *= 2;
          else if ((size_t)n >= size) size = n + 1;
          else return p;
          free( p );
      }
  }
  \<close>
  \<^verbatim>\<open>n\<close> is a 32-bit \<^verbatim>\<open>int\<close>, kept as its bit pattern: \<^verbatim>\<open>(size_t)n\<close> extends the
  sign, and \<^verbatim>\<open>n + 1\<close> is undefined for the largest \<^verbatim>\<open>int\<close>. \<^verbatim>\<open>size\<close> is a 64-bit
  \<^verbatim>\<open>size_t\<close> and doubling it wraps. The loop has no bound of its own, so a run that
  never leaves it is the value \<open>None\<close>. The variable \<^verbatim>\<open>size\<close> is \<open>sz\<close> here.
\<close>

partial_function (option) strmake_loop ::
  "(nat \<Rightarrow> 32 word) \<Rightarrow> string \<Rightarrow> state \<Rightarrow> 64 word \<Rightarrow> (error + ptr \<times> state) option" where
  "strmake_loop ret out st sz =
     (case xmalloc st (unat sz) of
        Inl e \<Rightarrow> Some (Inl e)
      | Inr (p, st1) \<Rightarrow>
          (case vsnprintf ret out st1 p (unat sz) of
             Inl e \<Rightarrow> Some (Inl e)
           | Inr (n, st2) \<Rightarrow>
               if n = - 1
               then (case free st2 p of
                       Inl e \<Rightarrow> Some (Inl e)
                     | Inr st3 \<Rightarrow> strmake_loop ret out st3 (sz * 2))
               else if sz \<le> scast n
               then (if sint n = 2 ^ 31 - 1 then Some (Inl Fault)
                     else (case free st2 p of
                             Inl e \<Rightarrow> Some (Inl e)
                           | Inr st3 \<Rightarrow> strmake_loop ret out st3 (scast (n + 1))))
               else Some (Inr (p, st2))))"

definition strmake :: "(nat \<Rightarrow> 32 word) \<Rightarrow> string \<Rightarrow> state \<Rightarrow> (error + ptr \<times> state) option" where
  "strmake ret out st = strmake_loop ret out st 100"

section \<open>What the claims observe\<close>

text \<open>
  The allocator hands out block numbers from \<open>nxt\<close> upwards and local variables live
  below \<open>sp\<close>, so in every state the program reaches nothing lies at or above them.
\<close>

definition heap_ok :: "state \<Rightarrow> bool" where
  "heap_ok st \<longleftrightarrow> (\<forall>b. nxt st \<le> b \<longrightarrow> mem st b = None)"


text \<open>
  The buffer of an array: the slots of the block \<open>str\<close> points to, which must have
  \<open>size\<close> slots; an array of size 0 may have a null \<open>str\<close>, as \<open>empty_strarray\<close> has.
  The elements of an array are the first \<open>count\<close> slots of its buffer.
\<close>

definition buffer :: "state \<Rightarrow> strarray \<Rightarrow> ptr list option" where
  "buffer st a =
     (case str a of
        Null \<Rightarrow> if size_sa a = 0 then Some [] else None
      | Ptr b off \<Rightarrow>
          (case mem st b of
             Some (Slots ps) \<Rightarrow>
               if off = 0 \<and> length ps = unat (size_sa a) then Some ps else None
           | _ \<Rightarrow> None))"

definition elements :: "state \<Rightarrow> strarray \<Rightarrow> ptr list option" where
  "elements st a =
     (case buffer st a of
        None \<Rightarrow> None
      | Some ps \<Rightarrow> if unat (count a) \<le> length ps then Some (take (unat (count a)) ps) else None)"

text \<open>The texts of a list of string pointers; \<open>None\<close> when one of them holds no string.\<close>

fun texts :: "state \<Rightarrow> ptr list \<Rightarrow> string list option" where
  "texts st [] = Some []"
| "texts st (p # ps) =
     (case cstring st p of
        None \<Rightarrow> None
      | Some t \<Rightarrow> (case texts st ps of None \<Rightarrow> None | Some ts \<Rightarrow> Some (t # ts)))"

text \<open>The texts of the elements of the array variable at an address.\<close>

definition array_texts :: "state \<Rightarrow> nat \<Rightarrow> string list option" where
  "array_texts st array =
     (case vars st array of
        None \<Rightarrow> None
      | Some a \<Rightarrow> (case elements st a of None \<Rightarrow> None | Some xs \<Rightarrow> texts st xs))"

text \<open>
  What a call of the \<^verbatim>\<open>strarray_add\<close> family on the array at \<open>array\<close> may change
  between two states: the array's own struct and buffer, which may move to a new block.
  Byte blocks, the other variables and the other blocks that were live stay as they are.
\<close>

definition extends :: "nat \<Rightarrow> state \<Rightarrow> state \<Rightarrow> bool" where
  "extends array st st' \<longleftrightarrow>
     heap_ok st' \<and> nxt st \<le> nxt st' \<and> sp st' = sp st \<and> tok_save st' = tok_save st \<and>
     (\<forall>b bs. mem st' b = Some (Bytes bs) \<longleftrightarrow> mem st b = Some (Bytes bs)) \<and>
     (\<forall>v. v \<noteq> array \<longrightarrow> vars st' v = vars st v) \<and>
     (case vars st array of
        None \<Rightarrow> False
      | Some a \<Rightarrow>
          (case vars st' array of
             None \<Rightarrow> False
           | Some a' \<Rightarrow>
               (str a' = str a \<or> (\<exists>b. nxt st \<le> b \<and> str a' = Ptr b 0)) \<and>
               (\<forall>b. b < nxt st \<and> str a \<noteq> Ptr b 0 \<longrightarrow> mem st' b = mem st b)))"

text \<open>
  A comparison function orders the strings it is used on when the signs of its results
  are those of a total preorder on them, and an array is sorted by it when no element
  compares greater than a later one.
\<close>

definition ordering_on :: "ptr set \<Rightarrow> (ptr \<Rightarrow> ptr \<Rightarrow> int) \<Rightarrow> bool" where
  "ordering_on S func \<longleftrightarrow>
     (\<forall>x\<in>S. \<forall>y\<in>S. (func x y < 0) = (func y x > 0)) \<and>
     (\<forall>x\<in>S. \<forall>y\<in>S. \<forall>z\<in>S. func x y \<le> 0 \<and> func y z \<le> 0 \<longrightarrow> func x z \<le> 0)"

definition sorted_by :: "(ptr \<Rightarrow> ptr \<Rightarrow> int) \<Rightarrow> ptr list \<Rightarrow> bool" where
  "sorted_by func xs \<longleftrightarrow> (\<forall>i j. i < j \<and> j < length xs \<longrightarrow> func (xs ! i) (xs ! j) \<le> 0)"

text \<open>The usual comparison function: \<^verbatim>\<open>strcmp\<close> on the two strings.\<close>

definition strcmp_func :: "state \<Rightarrow> ptr \<Rightarrow> ptr \<Rightarrow> int" where
  "strcmp_func st p q = (case strcmp st p q of Inl e \<Rightarrow> 0 | Inr c \<Rightarrow> c)"

text \<open>
  The formatting engine renders a format and its arguments to the text \<open>out\<close> when,
  for every buffer size, it either reports the length of \<open>out\<close> or, for a buffer that
  is too small for \<open>out\<close> and its NUL, gives the failure signal -1.
\<close>

definition renders :: "(nat \<Rightarrow> 32 word) \<Rightarrow> string \<Rightarrow> bool" where
  "renders ret out \<longleftrightarrow>
     (\<forall>n. sint (ret n) = int (length out) \<or> (ret n = - 1 \<and> n \<le> length out))"

text \<open>
  What \<^verbatim>\<open>strmake\<close> hands back: a pointer to the start of a block that did not exist
  before, whose bytes begin with the rendered text and a NUL; nothing else in memory has
  changed.
\<close>

definition strmake_post :: "string \<Rightarrow> state \<Rightarrow> ptr \<Rightarrow> state \<Rightarrow> bool" where
  "strmake_post out st p st' \<longleftrightarrow>
     (\<exists>b bs. p = Ptr b 0 \<and> nxt st \<le> b \<and> mem st' = (mem st)(b \<mapsto> Bytes bs) \<and>
        take (Suc (length out)) bs = out @ [NUL])"

text \<open>
  The tokens of a text for a string of delimiters, as the spec describes the result of
  splitting: the maximal runs of characters that are not delimiters, in their order.
  Delimiters at the start, at the end and next to each other separate nothing.
\<close>

function split_tokens :: "string \<Rightarrow> string \<Rightarrow> string list" where
  "split_tokens d inp =
     (if dropWhile (\<lambda>c. c \<in> set d) inp = [] then []
      else takeWhile (\<lambda>c. c \<notin> set d) (dropWhile (\<lambda>c. c \<in> set d) inp) #
           split_tokens d (drop 1 (dropWhile (\<lambda>c. c \<notin> set d) (dropWhile (\<lambda>c. c \<in> set d) inp))))"
  by pat_completeness auto

termination
proof (relation "measure (\<lambda>(d, inp). length inp)")
  show "wf (measure (\<lambda>(d, inp). length inp))"
    by simp
next
  fix d inp :: string
  assume ne: "dropWhile (\<lambda>c. c \<in> set d) inp \<noteq> []"
  let ?r = "dropWhile (\<lambda>c. c \<in> set d) inp"
  have a: "length (dropWhile (\<lambda>c. c \<notin> set d) ?r) \<le> length ?r"
    by (rule length_dropWhile_le)
  have b: "0 < length ?r"
    using ne by (cases ?r) simp_all
  have "length (drop 1 (dropWhile (\<lambda>c. c \<notin> set d) ?r)) < length ?r"
    unfolding length_drop using a b by linarith
  also have "\<dots> \<le> length inp"
    by (rule length_dropWhile_le)
  finally show "((d, drop 1 (dropWhile (\<lambda>c. c \<notin> set d) ?r)), (d, inp))
      \<in> measure (\<lambda>(d, inp). length inp)"
    by simp
qed

declare split_tokens.simps [simp del]

text \<open>Whether a pointer points into block \<open>b\<close>.\<close>

definition in_block :: "blk \<Rightarrow> ptr \<Rightarrow> bool" where
  "in_block b p = (case p of Null \<Rightarrow> False | Ptr c off \<Rightarrow> c = b)"

text \<open>
  The join of texts with a separator, as the specification describes it: the first
  text, then every further text with the separator before it.
\<close>

fun joined :: "string \<Rightarrow> string list \<Rightarrow> string" where
  "joined sep [] = []"
| "joined sep (t # ts) = t @ concat (map (\<lambda>u. sep @ u) ts)"

text \<open>
  Memory that suffices for \<^verbatim>\<open>strarray_fromstring\<close> to store the tokens \<open>toks\<close> in the
  array \<open>a\<close> when \<open>av\<close> bytes are available: a copy of every token with its NUL,
  and room for the buffer to be doubled while the old one is still held.
\<close>

definition tokens_fit :: "strarray \<Rightarrow> string list \<Rightarrow> nat \<Rightarrow> bool" where
  "tokens_fit a toks av \<longleftrightarrow>
     8 * unat (size_sa a) \<le> 16 * unat (count a) + 128 \<and>
     unat (count a) + length toks < 2 ^ 31 \<and>
     sum_list (map (\<lambda>t. Suc (length t)) toks) + 24 * (unat (count a) + length toks) + 128
       \<le> av + 8 * unat (size_sa a)"

section \<open>Sequences of calls\<close>

text \<open>
  A caller that adds the strings of a list one after the other, noting the \<^verbatim>\<open>size\<close>
  field after each call.
\<close>

fun strarray_add_seq :: "state \<Rightarrow> nat \<Rightarrow> ptr list \<Rightarrow> error + 32 word list \<times> state" where
  "strarray_add_seq st array [] = Inr ([], st)"
| "strarray_add_seq st array (s # ss) =
     (case strarray_add st array s of
        Inl e \<Rightarrow> Inl e
      | Inr st1 \<Rightarrow>
          (case vars st1 array of
             None \<Rightarrow> Inl Fault
           | Some a \<Rightarrow>
               (case strarray_add_seq st1 array ss of
                  Inl e \<Rightarrow> Inl e
                | Inr (szs, st2) \<Rightarrow> Inr (size_sa a # szs, st2))))"

text \<open>
  A caller that builds an array with \<^verbatim>\<open>strarray_add_uniq\<close> and
  \<^verbatim>\<open>strarray_addall_uniq\<close> only. An operand is in order in a state when it is a
  string there, or an array whose elements are strings there.
\<close>

datatype uniq_op = Add_uniq ptr | Addall_uniq strarray

fun run_uniq_ops :: "state \<Rightarrow> nat \<Rightarrow> uniq_op list \<Rightarrow> error + state" where
  "run_uniq_ops st array [] = Inr st"
| "run_uniq_ops st array (Add_uniq s # ops) =
     (case strarray_add_uniq st array s of
        Inl e \<Rightarrow> Inl e
      | Inr st' \<Rightarrow> run_uniq_ops st' array ops)"
| "run_uniq_ops st array (Addall_uniq added # ops) =
     (case strarray_addall_uniq st array added of
        Inl e \<Rightarrow> Inl e
      | Inr st' \<Rightarrow> run_uniq_ops st' array ops)"

fun op_ok :: "state \<Rightarrow> uniq_op \<Rightarrow> bool" where
  "op_ok st (Add_uniq s) = (cstring st s \<noteq> None)"
| "op_ok st (Addall_uniq added) =
     (case elements st added of None \<Rightarrow> False | Some ys \<Rightarrow> texts st ys \<noteq> None)"

section \<open>Example states\<close>

text \<open>A state with one empty array variable at address 0 and the string "a" in block 0.\<close>

definition ex_empty :: state where
  "ex_empty = \<lparr>vars = [0 \<mapsto> empty_strarray], mem = [0 \<mapsto> Bytes [CHR ''a'', NUL]], nxt = 1,
          avail = 1000, tok_save = Null, sp = 1\<rparr>"

text \<open>The state after \<^verbatim>\<open>strarray_add(&array, "a")\<close> there: the array holds the one string.\<close>

definition ex_one :: state where
  "ex_one = \<lparr>vars = [0 \<mapsto> \<lparr>count = 1, size_sa = 16, str = Ptr 1 0\<rparr>],
          mem = [0 \<mapsto> Bytes [CHR ''a'', NUL], 1 \<mapsto> Slots (Ptr 0 0 # replicate 15 Null)],
          nxt = 2, avail = 872, tok_save = Null, sp = 1\<rparr>"

text \<open>A state whose array is full: sixteen elements in sixteen slots.\<close>

definition ex_full :: state where
  "ex_full = \<lparr>vars = [0 \<mapsto> \<lparr>count = 16, size_sa = 16, str = Ptr 1 0\<rparr>],
          mem = [0 \<mapsto> Bytes [CHR ''a'', NUL], 1 \<mapsto> Slots (replicate 16 (Ptr 0 0))],
          nxt = 2, avail = 1000, tok_save = Null, sp = 1\<rparr>"

text \<open>A state with the sorted array of "a" and "b", and the string "c" beside it.\<close>

definition ex_two :: state where
  "ex_two = \<lparr>vars = [0 \<mapsto> \<lparr>count = 2, size_sa = 16, str = Ptr 5 0\<rparr>],
          mem = [2 \<mapsto> Bytes [CHR ''a'', NUL], 3 \<mapsto> Bytes [CHR ''b'', NUL],
                 4 \<mapsto> Bytes [CHR ''c'', NUL],
                 5 \<mapsto> Slots (Ptr 2 0 # Ptr 3 0 # replicate 14 Null)],
          nxt = 6, avail = 1000, tok_save = Null, sp = 1\<rparr>"

text \<open>A state with an empty memory, for formatting.\<close>

definition ex_printf :: state where
  "ex_printf = \<lparr>vars = Map.empty, mem = Map.empty, nxt = 2, avail = 1000, tok_save = Null, sp = 0\<rparr>"

text \<open>A state with the strings "a:b::c" and ":".\<close>

definition ex_split :: state where
  "ex_split = \<lparr>vars = Map.empty,
     mem = [0 \<mapsto> Bytes [CHR ''a'', CHR '':'', CHR ''b'', CHR '':'', CHR '':'', CHR ''c'', NUL],
            1 \<mapsto> Bytes [CHR '':'', NUL]],
     nxt = 2, avail = 1000, tok_save = Null, sp = 0\<rparr>"

text \<open>
  A state with the string literal \<^verbatim>\<open>""\<close>, the strings "a", "b" and "/", and the
  buffer of an array of "a" and "b".
\<close>

definition ex_join :: state where
  "ex_join = \<lparr>vars = Map.empty,
     mem = [0 \<mapsto> Bytes [NUL], 2 \<mapsto> Bytes [CHR ''a'', NUL], 3 \<mapsto> Bytes [CHR ''b'', NUL],
            4 \<mapsto> Bytes [CHR ''/'', NUL],
            5 \<mapsto> Slots (Ptr 2 0 # Ptr 3 0 # replicate 14 Null)],
     nxt = 6, avail = 1000, tok_save = Null, sp = 0\<rparr>"


section \<open>Properties of strings and of the allocator\<close>

lemma of_char_eq_0_iff: "(of_char c :: int) = 0 \<longleftrightarrow> c = NUL"
proof -
  have "(of_char c :: int) = of_char NUL \<longleftrightarrow> c = NUL" by (rule of_char_eq_iff)
  then show ?thesis by simp
qed

lemma strcmp_chars_eq_0:
  "NUL \<notin> set s \<Longrightarrow> NUL \<notin> set t \<Longrightarrow> strcmp_chars s t = 0 \<longleftrightarrow> s = t"
  by (induction s t rule: strcmp_chars.induct) (auto simp: of_char_eq_0_iff)

lemma cstring_no_NUL: "cstring st p = Some s \<Longrightarrow> NUL \<notin> set s"
  by (auto simp: cstring_def split: ptr.splits option.splits obj.splits if_splits dest: set_takeWhileD)

lemma elements_buffer:
  "elements st a = Some xs \<Longrightarrow>
     \<exists>ps. buffer st a = Some ps \<and> unat (count a) \<le> length ps \<and> xs = take (unat (count a)) ps"
  by (auto simp: elements_def split: option.splits if_splits)

lemma buffer_cases:
  "buffer st a = Some ps \<Longrightarrow>
     (str a = Null \<and> size_sa a = 0 \<and> ps = []) \<or>
     (\<exists>b. str a = Ptr b 0 \<and> mem st b = Some (Slots ps) \<and> length ps = unat (size_sa a))"
  by (auto simp: buffer_def split: ptr.splits option.splits obj.splits if_splits)

lemma strarray_add_noresize:
  assumes v: "vars st array = Some a" and ne: "count a \<noteq> size_sa a"
    and el: "elements st a = Some xs" and add: "strarray_add st array s = Inr st'"
  shows "\<exists>b ps. str a = Ptr b 0 \<and> mem st b = Some (Slots ps) \<and> length ps = unat (size_sa a) \<and>
           unat (count a) < length ps \<and>
           mem st' = (mem st)(b \<mapsto> Slots (ps[unat (count a) := s])) \<and>
           vars st' = (vars st)(array \<mapsto> a\<lparr>count := count a + 1\<rparr>) \<and>
           nxt st' = nxt st \<and> avail st' = avail st \<and> tok_save st' = tok_save st \<and> sp st' = sp st"
proof -
  from el obtain ps where b: "buffer st a = Some ps" and le: "unat (count a) \<le> length ps"
    using elements_buffer by blast
  from buffer_cases [OF b] ne le obtain b where
    s: "str a = Ptr b 0" and m: "mem st b = Some (Slots ps)" and l: "length ps = unat (size_sa a)"
    by (auto simp: unat_eq_0)
  from ne le l have lt: "unat (count a) < length ps"
    by (auto simp: word_unat_eq_iff)
  from add v ne s m lt show ?thesis
    by (auto simp: strarray_add_def store_slot_def l)
qed

lemma list_update_append_replicate:
  "n = length xs \<Longrightarrow> 0 < k \<Longrightarrow> (xs @ replicate k v)[n := s] = xs @ [s] @ replicate (k - 1) v"
  by (cases k) (simp_all add: list_update_append)

lemma list_update_replicate_0:
  "0 < k \<Longrightarrow> (replicate k v)[0 := s] = s # replicate (k - 1) v"
  using list_update_append_replicate [of 0 "[]" k v s] by simp

lemma strarray_add_resize:
  assumes ok: "heap_ok st" and v: "vars st array = Some a" and eq: "count a = size_sa a"
    and el: "elements st a = Some xs" and add: "strarray_add st array s = Inr st'"
  shows "\<exists>sz. sz = (if size_sa a = 0 then 16 else size_sa a * 2) \<and> unat (size_sa a) < unat sz \<and>
           mem st' = ((case str a of Null \<Rightarrow> mem st | Ptr b off \<Rightarrow> (mem st)(b := None)))
                       (nxt st \<mapsto> Slots (xs @ [s] @ replicate (unat sz - unat (size_sa a) - 1) Null)) \<and>
           vars st' = (vars st)(array \<mapsto> \<lparr>count = count a + 1, size_sa = sz, str = Ptr (nxt st) 0\<rparr>) \<and>
           nxt st' = Suc (nxt st) \<and> tok_save st' = tok_save st \<and> sp st' = sp st \<and>
           avail st' + 8 * unat sz = avail st + 8 * unat (size_sa a)"
proof -
  from el obtain ps where b: "buffer st a = Some ps" and le: "unat (count a) \<le> length ps"
    and xs: "xs = take (unat (count a)) ps"
    using elements_buffer by blast
  show ?thesis
    using buffer_cases [OF b]
  proof
    assume "str a = Null \<and> size_sa a = 0 \<and> ps = []"
    with add v eq xs show ?thesis
      by (auto simp: strarray_add_def xrealloc_def realloc_def alloc_def store_slot_def Let_def
             list_update_replicate_0
             split: if_splits sum.splits prod.splits ptr.splits option.splits obj.splits)
  next
    assume "\<exists>b. str a = Ptr b 0 \<and> mem st b = Some (Slots ps) \<and> length ps = unat (size_sa a)"
    then obtain b where s: "str a = Ptr b 0" and m: "mem st b = Some (Slots ps)"
       and l: "length ps = unat (size_sa a)" by blast
    from ok m have bn: "b \<noteq> nxt st" "b < nxt st"
      by (auto simp: heap_ok_def) (metis not_le_imp_less option.distinct(1))
    from xs eq l have xsps: "xs = ps" by simp
    show ?thesis
    proof (cases "size_sa a = 0")
      case True
      with add v eq s m l bn xsps show ?thesis
        by (auto simp: strarray_add_def xrealloc_def realloc_def alloc_def free_def store_slot_def Let_def
             list_update_replicate_0
             split: if_splits sum.splits prod.splits ptr.splits option.splits obj.splits)
    next
      case False
      with add v eq s m l bn xsps show ?thesis
        by (auto simp: strarray_add_def xrealloc_def realloc_def alloc_def free_def store_slot_def Let_def
             list_update_append_replicate
             split: if_splits sum.splits prod.splits ptr.splits option.splits obj.splits)
    qed
  qed
qed

lemma unat_plus_1: "unat (w :: 32 word) < n \<Longrightarrow> n < 2 ^ 32 \<Longrightarrow> unat (w + 1) = Suc (unat w)"
  by (simp add: unat_word_ariths)

lemma cstring_same_bytes:
  assumes "\<forall>b bs. mem st' b = Some (Bytes bs) \<longleftrightarrow> mem st b = Some (Bytes bs)"
  shows "cstring st' p = cstring st p"
proof (cases p)
  case Null
  then show ?thesis by (simp add: cstring_def)
next
  case (Ptr b off)
  show ?thesis
  proof (cases "\<exists>bs. mem st b = Some (Bytes bs)")
    case True
    then obtain bs where "mem st b = Some (Bytes bs)" by blast
    moreover from this assms have "mem st' b = Some (Bytes bs)" by simp
    ultimately show ?thesis using Ptr by (simp add: cstring_def)
  next
    case False
    with assms have "\<not> (\<exists>bs. mem st' b = Some (Bytes bs))" by simp
    with False Ptr show ?thesis
      by (auto simp: cstring_def split: option.splits obj.splits)
  qed
qed

lemma strarray_add_effect:
  assumes ok: "heap_ok st" and v: "vars st array = Some a"
    and el: "elements st a = Some xs" and add: "strarray_add st array s = Inr st'"
  shows "\<exists>a'. vars st' = (vars st)(array \<mapsto> a') \<and> unat (count a') = Suc (unat (count a)) \<and>
           elements st' a' = Some (xs @ [s]) \<and>
           size_sa a' = (if count a = size_sa a
                         then (if size_sa a = 0 then 16 else size_sa a * 2) else size_sa a) \<and>
           heap_ok st' \<and> (\<forall>b bs. mem st' b = Some (Bytes bs) \<longleftrightarrow> mem st b = Some (Bytes bs)) \<and>
           tok_save st' = tok_save st \<and> sp st' = sp st \<and> nxt st \<le> nxt st' \<and>
           avail st' + 8 * unat (size_sa a') = avail st + 8 * unat (size_sa a)"
proof (cases "count a = size_sa a")
  case False
  from strarray_add_noresize [OF v False el add] obtain b ps where
    s: "str a = Ptr b 0" and m: "mem st b = Some (Slots ps)" and l: "length ps = unat (size_sa a)"
    and lt: "unat (count a) < length ps"
    and m': "mem st' = (mem st)(b \<mapsto> Slots (ps[unat (count a) := s]))"
    and v': "vars st' = (vars st)(array \<mapsto> a\<lparr>count := count a + 1\<rparr>)"
    and r: "nxt st' = nxt st" "tok_save st' = tok_save st" "sp st' = sp st" "avail st' = avail st"
    by blast
  have u: "unat (count a + 1) = Suc (unat (count a))"
    using lt l unat_plus_1 [of "count a" "unat (size_sa a)"] unsigned_less [of "size_sa a"] by simp
  from el have xs: "xs = take (unat (count a)) ps"
    using s m l by (auto simp: elements_def buffer_def split: if_splits)
  have e: "elements st' (a\<lparr>count := count a + 1\<rparr>) = Some (xs @ [s])"
    using s m' l lt u xs by (simp add: elements_def buffer_def take_Suc_conv_app_nth)
  have h: "heap_ok st'"
    using ok m m' r by (auto simp: heap_ok_def)
  have sb: "\<forall>c bs. mem st' c = Some (Bytes bs) \<longleftrightarrow> mem st c = Some (Bytes bs)"
    using m m' by auto
  show ?thesis
    using v' u e h sb r False by (intro exI [of _ "a\<lparr>count := count a + 1\<rparr>"]) simp
next
  case True
  from strarray_add_resize [OF ok v True el add] obtain sz where
    sz: "sz = (if size_sa a = 0 then 16 else size_sa a * 2)" and lt: "unat (size_sa a) < unat sz"
    and m': "mem st' = ((case str a of Null \<Rightarrow> mem st | Ptr b off \<Rightarrow> (mem st)(b := None)))
                       (nxt st \<mapsto> Slots (xs @ [s] @ replicate (unat sz - unat (size_sa a) - 1) Null))"
    and v': "vars st' = (vars st)(array \<mapsto> \<lparr>count = count a + 1, size_sa = sz, str = Ptr (nxt st) 0\<rparr>)"
    and r: "nxt st' = Suc (nxt st)" "tok_save st' = tok_save st" "sp st' = sp st"
      "avail st' + 8 * unat sz = avail st + 8 * unat (size_sa a)"
    by blast
  let ?a' = "\<lparr>count = count a + 1, size_sa = sz, str = Ptr (nxt st) 0\<rparr>"
  have u: "unat (count a + 1) = Suc (unat (count a))"
    using True lt unat_plus_1 [of "count a" "unat sz"] unsigned_less [of sz] by simp
  from el True have lxs: "length xs = unat (size_sa a)"
    by (auto simp: elements_def split: option.splits if_splits)
  have e: "elements st' ?a' = Some (xs @ [s])"
    using m' lt u lxs True by (simp add: elements_def buffer_def)
  have fresh: "mem st (nxt st) = None"
    using ok by (simp add: heap_ok_def)
  have h: "heap_ok st'"
    using ok m' r by (auto simp: heap_ok_def split: ptr.splits)
  have sb: "\<forall>c bs. mem st' c = Some (Bytes bs) \<longleftrightarrow> mem st c = Some (Bytes bs)"
  proof (cases "str a")
    case Null
    with m' fresh show ?thesis by auto
  next
    case (Ptr b off)
    with el have "\<exists>ps. mem st b = Some (Slots ps)"
      by (auto simp: elements_def buffer_def split: option.splits obj.splits if_splits)
    with m' fresh Ptr show ?thesis by auto
  qed
  show ?thesis
    using v' u e h sb r True sz by (intro exI [of _ ?a']) simp
qed

lemma texts_Some:
  "texts st xs = Some ts \<Longrightarrow> length ts = length xs \<and> (\<forall>j<length xs. cstring st (xs ! j) = Some (ts ! j))"
proof (induction xs arbitrary: ts)
  case Nil
  then show ?case by simp
next
  case (Cons p ps)
  then show ?case
    by (auto split: option.splits simp: nth_Cons split: nat.splits)
qed

lemma elements_length: "elements st a = Some xs \<Longrightarrow> length xs = unat (count a)"
  by (auto simp: elements_def split: option.splits if_splits)

lemma elements_load_slot:
  "elements st a = Some xs \<Longrightarrow> j < length xs \<Longrightarrow> load_slot st (str a) j = Inr (xs ! j)"
  by (auto simp: elements_def buffer_def load_slot_def split: option.splits if_splits ptr.splits obj.splits)

lemma exists_loop_correct:
  assumes el: "elements st a = Some xs" and t: "texts st xs = Some ts" and s: "cstring st s = Some t"
  shows "unat i \<le> length xs \<Longrightarrow> exists_loop st a s i = Inr (if t \<in> set (drop (unat i) ts) then 1 else 0)"
proof (induction "length xs - unat i" arbitrary: i)
  case 0
  then have "\<not> i < count a"
    using elements_length [OF el] by (simp add: word_less_nat_alt)
  moreover have "drop (unat i) ts = []"
    using 0 texts_Some [OF t] by simp
  ultimately show ?case
    by (subst exists_loop.simps) simp
next
  case (Suc n)
  then have lt: "unat i < length xs" by simp
  then have ilt: "i < count a"
    using elements_length [OF el] by (simp add: word_less_nat_alt)
  have u: "unat (i + 1) = Suc (unat i)"
    using lt elements_length [OF el] unat_plus_1 [of i "unat (count a)"] unsigned_less [of "count a"]
    by simp
  have ld: "load_slot st (str a) (unat i) = Inr (xs ! unat i)"
    using el lt by (rule elements_load_slot)
  have c: "cstring st (xs ! unat i) = Some (ts ! unat i)" and len: "length ts = length xs"
    using texts_Some [OF t] lt by simp_all
  have z: "strcmp_chars (ts ! unat i) t = 0 \<longleftrightarrow> ts ! unat i = t"
    using cstring_no_NUL [OF c] cstring_no_NUL [OF s] by (rule strcmp_chars_eq_0)
  have d: "drop (unat i) ts = ts ! unat i # drop (Suc (unat i)) ts"
    using lt len by (simp add: Cons_nth_drop_Suc)
  have ih: "exists_loop st a s (i + 1) = Inr (if t \<in> set (drop (Suc (unat i)) ts) then 1 else 0)"
    using Suc.hyps(1) [of "i + 1"] Suc.hyps(2) lt u by simp
  show ?case
    by (subst exists_loop.simps) (auto simp: ilt ld strcmp_def c s z d ih)
qed

lemma texts_append:
  "texts st (xs @ ys) = (case texts st xs of None \<Rightarrow> None
      | Some ts \<Rightarrow> (case texts st ys of None \<Rightarrow> None | Some us \<Rightarrow> Some (ts @ us)))"
  by (induction xs) (auto split: option.splits)

lemma texts_cong: "(\<And>p. cstring st' p = cstring st p) \<Longrightarrow> texts st' xs = texts st xs"
  by (induction xs) (simp_all split: option.splits)

lemma strarray_add_returns:
  assumes ok: "heap_ok st" and v: "vars st array = Some a" and el: "elements st a = Some xs"
    and room: "count a \<noteq> size_sa a \<or>
       (unat (size_sa a) < 2 ^ 31 \<and>
        8 * unat (if size_sa a = 0 then 16 else size_sa a * 2 :: 32 word) \<le> avail st)"
  shows "\<exists>st'. strarray_add st array s = Inr st'"
proof -
  from el obtain ps where b: "buffer st a = Some ps" and le: "unat (count a) \<le> length ps"
    using elements_buffer by blast
  show ?thesis
  proof (cases "count a = size_sa a")
    case False
    from buffer_cases [OF b] False le obtain b where
      s: "str a = Ptr b 0" and m: "mem st b = Some (Slots ps)" and l: "length ps = unat (size_sa a)"
      by (auto simp: unat_eq_0)
    from False le l have "unat (count a) < length ps"
      by (auto simp: word_unat_eq_iff)
    with v False s m show ?thesis
      by (simp add: strarray_add_def store_slot_def)
  next
    case True
    with room have small: "unat (size_sa a) < 2 ^ 31"
      and av: "8 * unat (if size_sa a = 0 then 16 else size_sa a * 2 :: 32 word) \<le> avail st"
      by simp_all
    have dbl: "size_sa a \<noteq> 0 \<Longrightarrow> unat (size_sa a * 2) = 2 * unat (size_sa a)"
      using small by (simp add: unat_word_ariths)
    from buffer_cases [OF b] show ?thesis
    proof
      assume "str a = Null \<and> size_sa a = 0 \<and> ps = []"
      with v True av show ?thesis
        by (simp add: strarray_add_def xrealloc_def realloc_def alloc_def store_slot_def)
    next
      assume "\<exists>b. str a = Ptr b 0 \<and> mem st b = Some (Slots ps) \<and> length ps = unat (size_sa a)"
      then obtain b where s: "str a = Ptr b 0" and m: "mem st b = Some (Slots ps)"
        and l: "length ps = unat (size_sa a)" by blast
      from ok m have bn: "b \<noteq> nxt st"
        by (auto simp: heap_ok_def)
      show ?thesis
      proof (cases "size_sa a = 0")
        case z: True
        with v True av s m l bn show ?thesis
          by (simp add: strarray_add_def xrealloc_def realloc_def alloc_def free_def store_slot_def)
      next
        case nz: False
        then have "0 < unat (size_sa a)"
          by (simp add: unat_gt_0)
        with v True av s m l bn nz dbl show ?thesis
          by (simp add: strarray_add_def xrealloc_def realloc_def alloc_def free_def store_slot_def)
      qed
    qed
  qed
qed

lemma strarray_add_seq_append:
  "strarray_add_seq st array (xs @ ys) =
     (case strarray_add_seq st array xs of
        Inl e \<Rightarrow> Inl e
      | Inr (t1, st1) \<Rightarrow>
          (case strarray_add_seq st1 array ys of
             Inl e \<Rightarrow> Inl e
           | Inr (t2, st2) \<Rightarrow> Inr (t1 @ t2, st2)))"
  by (induction xs arbitrary: st) (auto split: sum.splits option.splits prod.splits)

lemma strarray_add_seq_noresize:
  assumes "heap_ok st" and "vars st array = Some a" and "elements st a = Some xs"
    and "unat (count a) + length ss \<le> unat (size_sa a)"
  shows "\<exists>st' a'. strarray_add_seq st array ss = Inr (replicate (length ss) (size_sa a), st') \<and>
           vars st' array = Some a' \<and> elements st' a' = Some (xs @ ss) \<and>
           size_sa a' = size_sa a \<and> heap_ok st' \<and> avail st' = avail st"
  using assms
proof (induction ss arbitrary: st a xs)
  case Nil
  then show ?case by simp
next
  case (Cons s ss)
  from Cons.prems(4) have ne: "count a \<noteq> size_sa a"
    by (auto simp: word_unat_eq_iff)
  then obtain st1 where add: "strarray_add st array s = Inr st1"
    using strarray_add_returns [OF Cons.prems(1-3), of s] by auto
  from strarray_add_effect [OF Cons.prems(1-3) add] ne obtain a1 where
    a1: "vars st1 array = Some a1" "unat (count a1) = Suc (unat (count a))"
      "elements st1 a1 = Some (xs @ [s])" "size_sa a1 = size_sa a" "heap_ok st1"
      "avail st1 = avail st"
    by auto
  from Cons.prems(4) a1 have "unat (count a1) + length ss \<le> unat (size_sa a1)"
    by simp
  from Cons.IH [OF a1(5) a1(1) a1(3) this] obtain st' a' where
    "strarray_add_seq st1 array ss = Inr (replicate (length ss) (size_sa a1), st')"
    "vars st' array = Some a'" "elements st' a' = Some ((xs @ [s]) @ ss)"
    "size_sa a' = size_sa a1" "heap_ok st'" "avail st' = avail st1"
    by blast
  with add a1 show ?case by simp
qed

lemma strarray_exists_correct:
  assumes "vars st array = Some a" and "elements st a = Some xs" and "texts st xs = Some ts"
    and "cstring st s = Some t"
  shows "strarray_exists st array s = Inr (if t \<in> set ts then 1 else 0)"
  using exists_loop_correct [OF assms(2-4), of 0] assms(1)
  by (simp add: strarray_exists_def)

lemma strarray_add_texts:
  assumes ok: "heap_ok st" and v: "vars st array = Some a"
    and el: "elements st a = Some xs" and ts: "texts st xs = Some ts"
    and s: "cstring st s = Some t" and add: "strarray_add st array s = Inr st'"
  shows "\<exists>a'. vars st' array = Some a' \<and> unat (count a') = Suc (unat (count a)) \<and>
           elements st' a' = Some (xs @ [s]) \<and> texts st' (xs @ [s]) = Some (ts @ [t]) \<and>
           heap_ok st' \<and> (\<forall>p. cstring st' p = cstring st p)"
proof -
  from strarray_add_effect [OF ok v el add] obtain a' where
    a': "vars st' = (vars st)(array \<mapsto> a')" "unat (count a') = Suc (unat (count a))"
     "elements st' a' = Some (xs @ [s])" "heap_ok st'"
    and sb: "\<forall>b bs. mem st' b = Some (Bytes bs) \<longleftrightarrow> mem st b = Some (Bytes bs)"
    by blast
  have cs: "\<And>p. cstring st' p = cstring st p"
    using sb by (rule cstring_same_bytes)
  have "texts st' (xs @ [s]) = Some (ts @ [t])"
    using ts s by (simp add: texts_append texts_cong [of st' st, OF cs] cs)
  with a' cs show ?thesis by simp
qed

lemma extends_refl: "heap_ok st \<Longrightarrow> vars st array = Some a \<Longrightarrow> extends array st st"
  by (simp add: extends_def)

lemma extends_trans:
  assumes "extends array st st1" and "extends array st1 st2"
  shows "extends array st st2"
proof -
  from assms(1) obtain a a1 where a: "vars st array = Some a" "vars st1 array = Some a1"
    by (auto simp: extends_def split: option.splits)
  from assms(2) a obtain a2 where a2: "vars st2 array = Some a2"
    by (auto simp: extends_def split: option.splits)
  from assms a a2 have
    s1: "str a1 = str a \<or> (\<exists>b. nxt st \<le> b \<and> str a1 = Ptr b 0)"
    and f1: "\<forall>b. b < nxt st \<and> str a \<noteq> Ptr b 0 \<longrightarrow> mem st1 b = mem st b"
    and s2: "str a2 = str a1 \<or> (\<exists>b. nxt st1 \<le> b \<and> str a2 = Ptr b 0)"
    and f2: "\<forall>b. b < nxt st1 \<and> str a1 \<noteq> Ptr b 0 \<longrightarrow> mem st2 b = mem st1 b"
    and n: "nxt st \<le> nxt st1" "nxt st1 \<le> nxt st2"
    by (simp_all add: extends_def)
  have s: "str a2 = str a \<or> (\<exists>b. nxt st \<le> b \<and> str a2 = Ptr b 0)"
    using s1 s2 n by (metis le_trans)
  have f: "\<forall>b. b < nxt st \<and> str a \<noteq> Ptr b 0 \<longrightarrow> mem st2 b = mem st b"
  proof (intro allI impI)
    fix b assume b: "b < nxt st \<and> str a \<noteq> Ptr b 0"
    with s1 have "str a1 \<noteq> Ptr b 0" by auto
    with b n f2 have "mem st2 b = mem st1 b" by simp
    with b f1 show "mem st2 b = mem st b" by simp
  qed
  from assms a a2 s f show ?thesis
    by (simp add: extends_def)
qed

lemma strarray_add_extends:
  assumes ok: "heap_ok st" and v: "vars st array = Some a"
    and el: "elements st a = Some xs" and add: "strarray_add st array s = Inr st'"
  shows "extends array st st'"
proof -
  from strarray_add_effect [OF ok v el add] obtain a' where
    e: "vars st' = (vars st)(array \<mapsto> a')" "heap_ok st'"
      "\<forall>b bs. mem st' b = Some (Bytes bs) \<longleftrightarrow> mem st b = Some (Bytes bs)"
      "tok_save st' = tok_save st" "sp st' = sp st" "nxt st \<le> nxt st'"
    by blast
  have "(str a' = str a \<or> (\<exists>b. nxt st \<le> b \<and> str a' = Ptr b 0)) \<and>
        (\<forall>b. b < nxt st \<and> str a \<noteq> Ptr b 0 \<longrightarrow> mem st' b = mem st b)"
  proof (cases "count a = size_sa a")
    case False
    from strarray_add_noresize [OF v False el add] obtain b ps where
      n: "str a = Ptr b 0" "mem st' = (mem st)(b \<mapsto> Slots (ps[unat (count a) := s]))"
        "vars st' = (vars st)(array \<mapsto> a\<lparr>count := count a + 1\<rparr>)"
      by blast
    from n(3) e(1) have "a' = a\<lparr>count := count a + 1\<rparr>"
      by (metis map_upd_eqD1)
    with n show ?thesis by simp
  next
    case True
    from el obtain ps where "buffer st a = Some ps" using elements_buffer by blast
    from buffer_cases [OF this] have c: "str a = Null \<or> (\<exists>b. str a = Ptr b 0)" by auto
    from strarray_add_resize [OF ok v True el add] obtain sz where
      r: "mem st' = ((case str a of Null \<Rightarrow> mem st | Ptr b off \<Rightarrow> (mem st)(b := None)))
                       (nxt st \<mapsto> Slots (xs @ [s] @ replicate (unat sz - unat (size_sa a) - 1) Null))"
        "vars st' = (vars st)(array \<mapsto> \<lparr>count = count a + 1, size_sa = sz, str = Ptr (nxt st) 0\<rparr>)"
      by blast
    from r(2) e(1) have "a' = \<lparr>count = count a + 1, size_sa = sz, str = Ptr (nxt st) 0\<rparr>"
      by (metis map_upd_eqD1)
    then have "str a' = Ptr (nxt st) 0" by simp
    moreover have "\<forall>b. b < nxt st \<and> str a \<noteq> Ptr b 0 \<longrightarrow> mem st' b = mem st b"
      using c r(1) by auto
    ultimately show ?thesis by auto
  qed
  with e v show ?thesis
    by (simp add: extends_def)
qed

lemma array_texts_Some:
  "array_texts st array = Some ts \<longleftrightarrow>
     (\<exists>a xs. vars st array = Some a \<and> elements st a = Some xs \<and> texts st xs = Some ts)"
  by (auto simp: array_texts_def split: option.splits)

lemma extends_cstring: "extends array st st' \<Longrightarrow> cstring st' p = cstring st p"
  by (rule cstring_same_bytes) (simp add: extends_def)

lemma extends_texts: "extends array st st' \<Longrightarrow> texts st' xs = texts st xs"
  by (rule texts_cong) (rule extends_cstring)

lemma live_below_nxt: "heap_ok st \<Longrightarrow> mem st b = Some ob \<Longrightarrow> b < nxt st"
  by (metis heap_ok_def not_le_imp_less option.distinct(1))

lemma extends_other_array:
  assumes ex: "extends array st st'" and ok: "heap_ok st" and v: "vars st array = Some a"
    and v': "vars st' array = Some a'"
    and el: "elements st added = Some ys" and dj: "str added = Null \<or> str added \<noteq> str a"
  shows "elements st' added = Some ys \<and> (str added = Null \<or> str added \<noteq> str a')"
proof (cases "str added")
  case Null
  with el show ?thesis
    by (simp add: elements_def buffer_def)
next
  case (Ptr b off)
  with el obtain ps where m: "mem st b = Some (Slots ps)" and off: "off = 0"
    by (auto simp: elements_def buffer_def split: option.splits obj.splits if_splits)
  from live_below_nxt [OF ok m] have lt: "b < nxt st" .
  from ex v v' have s: "str a' = str a \<or> (\<exists>c. nxt st \<le> c \<and> str a' = Ptr c 0)"
    and f: "\<forall>c. c < nxt st \<and> str a \<noteq> Ptr c 0 \<longrightarrow> mem st' c = mem st c"
    by (simp_all add: extends_def)
  from dj Ptr off have "str a \<noteq> Ptr b 0" by auto
  with f lt have "mem st' b = mem st b" by simp
  with el Ptr have "elements st' added = Some ys"
    by (simp add: elements_def buffer_def)
  moreover from s dj Ptr off lt have "str added \<noteq> str a'" by auto
  ultimately show ?thesis by simp
qed

lemma strarray_add_uniq_step:
  assumes ok: "heap_ok st" and v: "vars st array = Some a"
    and el: "elements st a = Some xs" and ts: "texts st xs = Some ts" and d: "distinct ts"
    and s: "cstring st s = Some t" and add: "strarray_add_uniq st array s = Inr st'"
  shows "extends array st st' \<and>
         (\<exists>a' xs' ts'. vars st' array = Some a' \<and> elements st' a' = Some xs' \<and>
            texts st' xs' = Some ts' \<and> distinct ts' \<and> set ts' = insert t (set ts))"
proof (cases "t \<in> set ts")
  case True
  with strarray_exists_correct [OF v el ts s] add have "st' = st"
    by (simp add: strarray_add_uniq_def)
  with True v el ts d ok show ?thesis
    by (auto simp: extends_refl)
next
  case False
  with strarray_exists_correct [OF v el ts s] add have a: "strarray_add st array s = Inr st'"
    by (simp add: strarray_add_uniq_def)
  from strarray_add_texts [OF ok v el ts s a] obtain a' where
    "vars st' array = Some a'" "elements st' a' = Some (xs @ [s])"
    "texts st' (xs @ [s]) = Some (ts @ [t])"
    by blast
  moreover have "distinct (ts @ [t])" "set (ts @ [t]) = insert t (set ts)"
    using d False by simp_all
  ultimately show ?thesis
    using strarray_add_extends [OF ok v el a] by blast
qed

lemma addall_uniq_loop_distinct:
  assumes ys: "texts st0 ys = Some us"
  shows "heap_ok st \<Longrightarrow> vars st array = Some a \<Longrightarrow> elements st a = Some xs \<Longrightarrow>
    texts st xs = Some ts \<Longrightarrow> distinct ts \<Longrightarrow> elements st added = Some ys \<Longrightarrow>
    (\<forall>p. cstring st p = cstring st0 p) \<Longrightarrow>
    str added = Null \<or> str added \<noteq> str a \<Longrightarrow> unat i \<le> length ys \<Longrightarrow>
    addall_uniq_loop st array added i = Inr st' \<Longrightarrow>
    extends array st st' \<and>
    (\<exists>a' xs' ts'. vars st' array = Some a' \<and> elements st' a' = Some xs' \<and>
       texts st' xs' = Some ts' \<and> distinct ts' \<and> set ts' = set ts \<union> set (drop (unat i) us))"
proof (induction "length ys - unat i" arbitrary: st a xs ts i)
  case 0
  then have "\<not> i < count added"
    using elements_length [of st added ys] by (simp add: word_less_nat_alt)
  with "0.prems"(10) have "st' = st"
    by (subst (asm) addall_uniq_loop.simps) simp
  moreover have "drop (unat i) us = []"
    using 0 texts_Some [OF ys] by simp
  ultimately show ?case
    using "0.prems" by (auto simp: extends_refl)
next
  case (Suc n)
  then have lt: "unat i < length ys" by simp
  then have ilt: "i < count added"
    using elements_length [OF Suc.prems(6)] by (simp add: word_less_nat_alt)
  have u: "unat (i + 1) = Suc (unat i)"
    using lt elements_length [OF Suc.prems(6)] unat_plus_1 [of i "unat (count added)"]
      unsigned_less [of "count added"]
    by simp
  have ld: "load_slot st (str added) (unat i) = Inr (ys ! unat i)"
    using Suc.prems(6) lt by (rule elements_load_slot)
  have c: "cstring st (ys ! unat i) = Some (us ! unat i)" and len: "length us = length ys"
    using texts_Some [OF ys] lt Suc.prems(7) by simp_all
  from Suc.prems(10) ilt ld obtain st1 where
    s1: "strarray_add_uniq st array (ys ! unat i) = Inr st1"
    and r: "addall_uniq_loop st1 array added (i + 1) = Inr st'"
    by (subst (asm) addall_uniq_loop.simps) (auto split: sum.splits)
  from strarray_add_uniq_step [OF Suc.prems(1-5) c s1] obtain a1 xs1 ts1 where
    ex1: "extends array st st1"
    and a1: "vars st1 array = Some a1" "elements st1 a1 = Some xs1" "texts st1 xs1 = Some ts1"
      "distinct ts1" "set ts1 = insert (us ! unat i) (set ts)"
    by blast
  have ok1: "heap_ok st1" using ex1 by (simp add: extends_def)
  have oth: "elements st1 added = Some ys \<and> (str added = Null \<or> str added \<noteq> str a1)"
    using extends_other_array [OF ex1 Suc.prems(1,2) a1(1) Suc.prems(6,8)] .
  have cs1: "\<forall>p. cstring st1 p = cstring st0 p"
    using extends_cstring [OF ex1] Suc.prems(7) by simp
  have "n = length ys - unat (i + 1)" "unat (i + 1) \<le> length ys"
    using Suc.hyps(2) lt u by simp_all
  from Suc.hyps(1) [OF this(1) ok1 a1(1-4) conjunct1 [OF oth] cs1 conjunct2 [OF oth] this(2) r]
  obtain a' xs' ts' where
    ex2: "extends array st1 st'"
    and a': "vars st' array = Some a'" "elements st' a' = Some xs'" "texts st' xs' = Some ts'"
      "distinct ts'" "set ts' = set ts1 \<union> set (drop (unat (i + 1)) us)"
    by blast
  have "drop (unat i) us = us ! unat i # drop (Suc (unat i)) us"
    using lt len by (simp add: Cons_nth_drop_Suc)
  with a'(5) a1(5) u have "set ts' = set ts \<union> set (drop (unat i) us)"
    by auto
  with a' extends_trans [OF ex1 ex2] show ?case by blast
qed

lemma elements_same_block:
  "(\<And>b off. str added = Ptr b off \<Longrightarrow> mem st' b = mem st b) \<Longrightarrow>
     elements st' added = elements st added"
  by (cases "str added") (simp_all add: elements_def buffer_def)

lemma strarray_addall_uniq_distinct:
  assumes ok: "heap_ok st" and v: "vars st array = Some a" and el: "elements st a = Some xs"
    and ts: "texts st xs = Some ts" and d: "distinct ts"
    and ys: "elements st added = Some ys" and us: "texts st ys = Some us"
    and dj: "str added = Null \<or> str added \<noteq> str a"
    and run: "strarray_addall_uniq st array added = Inr st'"
  shows "extends array st st' \<and>
    (\<exists>a' xs' ts'. vars st' array = Some a' \<and> elements st' a' = Some xs' \<and>
       texts st' xs' = Some ts' \<and> distinct ts' \<and> set ts' = set ts \<union> set us)"
  using addall_uniq_loop_distinct [OF us ok v el ts d ys _ dj, of 0 st'] run
  by (simp add: strarray_addall_uniq_def)

lemma run_uniq_ops_distinct:
  assumes ok0: "heap_ok st0"
  shows "heap_ok st \<Longrightarrow> nxt st0 \<le> nxt st \<Longrightarrow> (\<forall>p. cstring st p = cstring st0 p) \<Longrightarrow>
    (\<forall>b<nxt st0. mem st b = mem st0 b) \<Longrightarrow> vars st array = Some a \<Longrightarrow>
    str a = Null \<or> (\<exists>b\<ge>nxt st0. str a = Ptr b 0) \<Longrightarrow>
    elements st a = Some xs \<Longrightarrow> texts st xs = Some ts \<Longrightarrow> distinct ts \<Longrightarrow>
    list_all (op_ok st0) ops \<Longrightarrow> run_uniq_ops st array ops = Inr st' \<Longrightarrow>
    \<exists>ts'. array_texts st' array = Some ts' \<and> distinct ts'"
proof (induction ops arbitrary: st a xs ts)
  case Nil
  then show ?case by (auto simp: array_texts_Some)
next
  case (Cons op ops)
  have step: "\<exists>ts'. array_texts st' array = Some ts' \<and> distinct ts'"
    if ex: "extends array st st1" and a1: "vars st1 array = Some a1" "elements st1 a1 = Some xs1"
      "texts st1 xs1 = Some ts1" "distinct ts1" and r: "run_uniq_ops st1 array ops = Inr st'"
    for st1 a1 xs1 ts1
  proof -
    have ok1: "heap_ok st1" and n1: "nxt st0 \<le> nxt st1"
      using ex Cons.prems(2) by (simp_all add: extends_def)
    have cs1: "\<forall>p. cstring st1 p = cstring st0 p"
      using extends_cstring [OF ex] Cons.prems(3) by simp
    from ex Cons.prems(5) a1(1) have
      s: "str a1 = str a \<or> (\<exists>b. nxt st \<le> b \<and> str a1 = Ptr b 0)"
      and f: "\<forall>b. b < nxt st \<and> str a \<noteq> Ptr b 0 \<longrightarrow> mem st1 b = mem st b"
      by (simp_all add: extends_def)
    have m1: "\<forall>b<nxt st0. mem st1 b = mem st0 b"
    proof (intro allI impI)
      fix b assume b: "b < nxt st0"
      with Cons.prems(6) have "str a \<noteq> Ptr b 0" by auto
      with f b Cons.prems(2) have "mem st1 b = mem st b" by simp
      with b Cons.prems(4) show "mem st1 b = mem st0 b" by simp
    qed
    have s1: "str a1 = Null \<or> (\<exists>b\<ge>nxt st0. str a1 = Ptr b 0)"
      using s Cons.prems(6) Cons.prems(2) by (metis le_trans)
    from Cons.prems(10) have "list_all (op_ok st0) ops" by simp
    from Cons.IH [OF ok1 n1 cs1 m1 a1(1) s1 a1(2-4) this r] show ?thesis .
  qed
  show ?case
  proof (cases op)
    case (Add_uniq s)
    with Cons.prems(10) obtain t where "cstring st0 s = Some t" by auto
    then have c: "cstring st s = Some t" using Cons.prems(3) by simp
    from Cons.prems(11) Add_uniq obtain st1 where
      s1: "strarray_add_uniq st array s = Inr st1" and r: "run_uniq_ops st1 array ops = Inr st'"
      by (auto split: sum.splits)
    from strarray_add_uniq_step [OF Cons.prems(1,5,7,8,9) c s1] step r show ?thesis
      by blast
  next
    case (Addall_uniq added)
    with Cons.prems(10) obtain ys us where
      ys0: "elements st0 added = Some ys" and us0: "texts st0 ys = Some us"
      by (auto split: option.splits)
    have blk: "b < nxt st0" if "str added = Ptr b off" for b off
    proof -
      from ys0 that obtain ps where "mem st0 b = Some (Slots ps)"
        by (auto simp: elements_def buffer_def split: option.splits obj.splits if_splits)
      then show ?thesis by (rule live_below_nxt [OF ok0])
    qed
    have "elements st added = elements st0 added"
      using blk Cons.prems(4) by (intro elements_same_block) simp
    with ys0 have ys: "elements st added = Some ys" by simp
    have us: "texts st ys = Some us"
      using us0 texts_cong [of st st0 ys] Cons.prems(3) by simp
    have dj: "str added = Null \<or> str added \<noteq> str a"
    proof (cases "str added")
      case Null
      then show ?thesis by simp
    next
      case (Ptr b off)
      from blk [OF Ptr] ys Ptr have "b < nxt st0" "off = 0"
        by (auto simp: elements_def buffer_def split: option.splits obj.splits if_splits)
      with Ptr Cons.prems(6) show ?thesis by auto
    qed
    from Cons.prems(11) Addall_uniq obtain st1 where
      s1: "strarray_addall_uniq st array added = Inr st1"
      and r: "run_uniq_ops st1 array ops = Inr st'"
      by (auto split: sum.splits)
    from strarray_addall_uniq_distinct [OF Cons.prems(1,5,7,8,9) ys us dj s1] step r
    show ?thesis by blast
  qed
qed

lemma ex_empty_facts:
  "heap_ok ex_empty" "vars ex_empty 0 = Some empty_strarray"
  "elements ex_empty empty_strarray = Some []" "texts ex_empty [] = Some []"
  "cstring ex_empty (Ptr 0 0) = Some ''a''" "array_texts ex_empty 0 = Some []"
  by (simp_all add: heap_ok_def ex_empty_def elements_def buffer_def empty_strarray_def
      cstring_def array_texts_def)

lemma ex_one_facts:
  "heap_ok ex_one" "vars ex_one 0 = Some \<lparr>count = 1, size_sa = 16, str = Ptr 1 0\<rparr>"
  "elements ex_one \<lparr>count = 1, size_sa = 16, str = Ptr 1 0\<rparr> = Some [Ptr 0 0]"
  "texts ex_one [Ptr 0 0] = Some [''a'']" "cstring ex_one (Ptr 0 0) = Some ''a''"
  "array_texts ex_one 0 = Some [''a'']"
  by (simp_all add: ex_one_def heap_ok_def elements_def buffer_def cstring_def array_texts_def)

lemma ex_empty_add: "strarray_add ex_empty 0 (Ptr 0 0) = Inr ex_one"
  by (simp add: strarray_add_def ex_empty_def ex_one_def empty_strarray_def xrealloc_def
      realloc_def alloc_def store_slot_def list_update_replicate_0)

lemma ex_empty_add_uniq: "strarray_add_uniq ex_empty 0 (Ptr 0 0) = Inr ex_one"
  using strarray_exists_correct [OF ex_empty_facts(2-5)] ex_empty_add
  by (simp add: strarray_add_uniq_def)

lemma ex_one_add_uniq: "strarray_add_uniq ex_one 0 (Ptr 0 0) = Inr ex_one"
  using strarray_exists_correct [OF ex_one_facts(2-5)]
  by (simp add: strarray_add_uniq_def)

lemma addall_loop_noresize:
  assumes m: "length ys = unat (count added)"
    and off: "\<forall>b off. str added = Ptr b off \<longrightarrow> off = 0"
  shows "heap_ok st \<Longrightarrow> vars st array = Some a \<Longrightarrow> elements st a = Some xs \<Longrightarrow>
    (\<forall>j. unat i \<le> j \<and> j < length ys \<longrightarrow> load_slot st (str added) j = Inr (ys ! j)) \<Longrightarrow>
    unat (count a) + (length ys - unat i) \<le> unat (size_sa a) \<Longrightarrow>
    str added \<noteq> str a \<or> length ys \<le> unat (count a) \<Longrightarrow> unat i \<le> length ys \<Longrightarrow>
    \<exists>st' a'. addall_loop st array added i = Inr st' \<and> vars st' array = Some a' \<and>
      elements st' a' = Some (xs @ drop (unat i) ys) \<and> size_sa a' = size_sa a \<and>
      str a' = str a \<and> extends array st st' \<and> avail st' = avail st"
proof (induction "length ys - unat i" arbitrary: st a xs i)
  case 0
  then have "\<not> i < count added"
    using m by (simp add: word_less_nat_alt)
  then have "addall_loop st array added i = Inr st"
    by (subst addall_loop.simps) simp
  with 0 show ?case
    by (simp add: extends_refl)
next
  case (Suc n)
  then have lt: "unat i < length ys" by simp
  then have ilt: "i < count added"
    using m by (simp add: word_less_nat_alt)
  have u: "unat (i + 1) = Suc (unat i)"
    using lt m unat_plus_1 [of i "unat (count added)"] unsigned_less [of "count added"]
    by simp
  have ld: "load_slot st (str added) (unat i) = Inr (ys ! unat i)"
    using Suc.prems(4) lt by simp
  from Suc.prems(5) lt have ne: "count a \<noteq> size_sa a"
    by (auto simp: word_unat_eq_iff)
  then obtain st1 where add: "strarray_add st array (ys ! unat i) = Inr st1"
    using strarray_add_returns [OF Suc.prems(1-3), of "ys ! unat i"] by auto
  from strarray_add_noresize [OF Suc.prems(2) ne Suc.prems(3) add] obtain b ps where
    nr: "str a = Ptr b 0" "mem st b = Some (Slots ps)" "unat (count a) < length ps"
      "mem st1 = (mem st)(b \<mapsto> Slots (ps[unat (count a) := ys ! unat i]))"
      "vars st1 = (vars st)(array \<mapsto> a\<lparr>count := count a + 1\<rparr>)" "avail st1 = avail st"
    by blast
  let ?a1 = "a\<lparr>count := count a + 1\<rparr>"
  from strarray_add_effect [OF Suc.prems(1-3) add] nr(5) have
    a1: "unat (count ?a1) = Suc (unat (count a))" "elements st1 ?a1 = Some (xs @ [ys ! unat i])"
      "heap_ok st1"
    by (auto dest: map_upd_eqD1)
  have v1: "vars st1 array = Some ?a1" using nr(5) by simp
  have rd: "\<forall>j. unat (i + 1) \<le> j \<and> j < length ys \<longrightarrow> load_slot st1 (str added) j = Inr (ys ! j)"
  proof (intro allI impI)
    fix j assume j: "unat (i + 1) \<le> j \<and> j < length ys"
    with u Suc.prems(4) have old: "load_slot st (str added) j = Inr (ys ! j)" by simp
    show "load_slot st1 (str added) j = Inr (ys ! j)"
    proof (cases "str added = str a")
      case True
      with Suc.prems(6) j have "j \<noteq> unat (count a)" by simp
      with old True nr show ?thesis
        by (auto simp: load_slot_def split: if_splits)
    next
      case False
      with old nr off show ?thesis
        by (auto simp: load_slot_def split: ptr.splits option.splits obj.splits if_splits)
    qed
  qed
  have room: "unat (count ?a1) + (length ys - unat (i + 1)) \<le> unat (size_sa ?a1)"
    using Suc.prems(5) lt u a1(1) by simp
  have safe: "str added \<noteq> str ?a1 \<or> length ys \<le> unat (count ?a1)"
    using Suc.prems(6) a1(1) by auto
  have "n = length ys - unat (i + 1)" "unat (i + 1) \<le> length ys"
    using Suc.hyps(2) lt u by simp_all
  from Suc.hyps(1) [OF this(1) a1(3) v1 a1(2) rd room safe this(2)] obtain st' a' where
    r: "addall_loop st1 array added (i + 1) = Inr st'" "vars st' array = Some a'"
      "elements st' a' = Some ((xs @ [ys ! unat i]) @ drop (unat (i + 1)) ys)"
      "size_sa a' = size_sa ?a1" "str a' = str ?a1" "extends array st1 st'" "avail st' = avail st1"
    by blast
  have "addall_loop st array added i = Inr st'"
    using ilt ld add r(1) by (subst addall_loop.simps) simp
  moreover have "drop (unat i) ys = ys ! unat i # drop (Suc (unat i)) ys"
    using lt by (simp add: Cons_nth_drop_Suc)
  moreover have "extends array st st'"
    using strarray_add_extends [OF Suc.prems(1-3) add] r(6) by (rule extends_trans)
  ultimately show ?case
    using r u nr(6) by simp
qed

lemma ordering_on_sign:
  "ordering_on S func \<Longrightarrow> x \<in> S \<Longrightarrow> y \<in> S \<Longrightarrow> (func x y < 0) = (func y x > 0)"
  by (simp add: ordering_on_def)

lemma ordering_on_trans:
  "ordering_on S func \<Longrightarrow> x \<in> S \<Longrightarrow> y \<in> S \<Longrightarrow> z \<in> S \<Longrightarrow>
     func x y \<le> 0 \<Longrightarrow> func y z \<le> 0 \<Longrightarrow> func x z \<le> 0"
  unfolding ordering_on_def by blast

lemma ordering_on_less_trans:
  assumes o: "ordering_on S func" and S: "k \<in> S" "x \<in> S" "y \<in> S"
    and 1: "func k x < 0" and 2: "func x y \<le> 0"
  shows "func k y < 0"
proof (rule ccontr)
  assume "\<not> func k y < 0"
  then have "\<not> func y k > 0"
    using ordering_on_sign [OF o S(1,3)] by simp
  then have "func y k \<le> 0" by simp
  with 2 have "func x k \<le> 0"
    using ordering_on_trans [OF o S(2,3,1)] by simp
  moreover from 1 have "func x k > 0"
    using ordering_on_sign [OF o S(1,2)] by simp
  ultimately show False by simp
qed

lemma ordering_on_greater_trans:
  assumes o: "ordering_on S func" and S: "k \<in> S" "x \<in> S" "y \<in> S"
    and 1: "func k x > 0" and 2: "func y x \<le> 0"
  shows "func k y > 0"
proof (rule ccontr)
  assume "\<not> func k y > 0"
  then have "func k y \<le> 0" by simp
  with 2 have "func k x \<le> 0"
    using ordering_on_trans [OF o S(1,3,2)] by simp
  with 1 show False by simp
qed

lemma load_slot_offset: "load_slot st (Ptr b j) 0 = load_slot st (Ptr b 0) j"
  by (simp add: load_slot_def split: option.splits obj.splits)

lemma bsearch_loop_correct:
  assumes rd: "\<forall>j<length xs. load_slot st base j = Inr (xs ! j)"
    and lo: "\<forall>i j. i \<le> j \<and> j < length xs \<and> func key (xs ! i) < 0 \<longrightarrow> func key (xs ! j) < 0"
    and hi: "\<forall>i j. i \<le> j \<and> j < length xs \<and> func key (xs ! j) > 0 \<longrightarrow> func key (xs ! i) > 0"
  shows "l \<le> u \<Longrightarrow> u \<le> length xs \<Longrightarrow> (\<forall>j<l. func key (xs ! j) > 0) \<Longrightarrow>
    (\<forall>j. u \<le> j \<and> j < length xs \<longrightarrow> func key (xs ! j) < 0) \<Longrightarrow>
    (bsearch_loop func st key base l u = Inr Null \<and> (\<forall>j<length xs. func key (xs ! j) \<noteq> 0)) \<or>
    (\<exists>j<length xs. bsearch_loop func st key base l u = Inr (ptr_add base j) \<and>
       func key (xs ! j) = 0)"
proof (induction "u - l" arbitrary: l u rule: less_induct)
  case less
  show ?case
  proof (cases "l < u")
    case False
    with less.prems have "l = u" by simp
    with less.prems have "\<forall>j<length xs. func key (xs ! j) \<noteq> 0"
      by (metis less_irrefl not_le_imp_less)
    moreover have "bsearch_loop func st key base l u = Inr Null"
      using False by (subst bsearch_loop.simps) simp
    ultimately show ?thesis by simp
  next
    case True
    let ?m = "(l + u) div 2"
    from True less.prems have m: "l \<le> ?m" "?m < u" "?m < length xs" by auto
    then have ld: "load_slot st base ?m = Inr (xs ! ?m)" using rd by simp
    consider (lt) "func key (xs ! ?m) < 0" | (gt) "func key (xs ! ?m) > 0"
      | (eq) "func key (xs ! ?m) = 0" by linarith
    then show ?thesis
    proof cases
      case lt
      have "\<forall>j. ?m \<le> j \<and> j < length xs \<longrightarrow> func key (xs ! j) < 0"
        using lo lt by blast
      with less.hyps [of ?m l] m less.prems(3) have
        "(bsearch_loop func st key base l ?m = Inr Null \<and> (\<forall>j<length xs. func key (xs ! j) \<noteq> 0)) \<or>
         (\<exists>j<length xs. bsearch_loop func st key base l ?m = Inr (ptr_add base j) \<and>
            func key (xs ! j) = 0)"
        by simp
      moreover have "bsearch_loop func st key base l u = bsearch_loop func st key base l ?m"
        using True ld lt by (subst bsearch_loop.simps) simp
      ultimately show ?thesis by simp
    next
      case gt
      have "\<forall>j<?m + 1. func key (xs ! j) > 0"
        using hi gt m by (metis Suc_eq_plus1 less_Suc_eq_le)
      with less.hyps [of u "?m + 1"] m less.prems(2,4) have
        "(bsearch_loop func st key base (?m + 1) u = Inr Null \<and> (\<forall>j<length xs. func key (xs ! j) \<noteq> 0)) \<or>
         (\<exists>j<length xs. bsearch_loop func st key base (?m + 1) u = Inr (ptr_add base j) \<and>
            func key (xs ! j) = 0)"
        by simp
      moreover have "bsearch_loop func st key base l u = bsearch_loop func st key base (?m + 1) u"
        using True ld gt by (subst bsearch_loop.simps) simp
      ultimately show ?thesis by simp
    next
      case eq
      have "bsearch_loop func st key base l u = Inr (ptr_add base ?m)"
        using True ld eq by (subst bsearch_loop.simps) simp
      with eq m show ?thesis by blast
    qed
  qed
qed

lemma ex_two_facts:
  "vars ex_two 0 = Some \<lparr>count = 2, size_sa = 16, str = Ptr 5 0\<rparr>"
  "elements ex_two \<lparr>count = 2, size_sa = 16, str = Ptr 5 0\<rparr> = Some [Ptr 2 0, Ptr 3 0]"
  by (simp_all add: ex_two_def elements_def buffer_def)

lemma ex_two_strcmp:
  "strcmp_func ex_two (Ptr 2 0) (Ptr 2 0) = 0" "strcmp_func ex_two (Ptr 2 0) (Ptr 3 0) = - 1"
  "strcmp_func ex_two (Ptr 2 0) (Ptr 4 0) = - 2" "strcmp_func ex_two (Ptr 3 0) (Ptr 2 0) = 1"
  "strcmp_func ex_two (Ptr 3 0) (Ptr 3 0) = 0" "strcmp_func ex_two (Ptr 3 0) (Ptr 4 0) = - 1"
  "strcmp_func ex_two (Ptr 4 0) (Ptr 2 0) = 2" "strcmp_func ex_two (Ptr 4 0) (Ptr 3 0) = 1"
  "strcmp_func ex_two (Ptr 4 0) (Ptr 4 0) = 0"
  by (simp_all add: strcmp_func_def strcmp_def cstring_def ex_two_def)

lemma sint_nat_less:
  fixes n :: "32 word"
  assumes "sint n = int k"
  shows "k < 2 ^ 31"
proof -
  have "sint n < 2 ^ 31"
    using sint_lt [of n] by simp
  with assms show ?thesis by simp
qed

lemma scast_nat:
  fixes n :: "32 word"
  assumes "sint n = int k"
  shows "unat (scast n :: 64 word) = k"
proof -
  have "k < 2 ^ 31" using assms by (rule sint_nat_less)
  then have "k < 2 ^ 64" by simp
  moreover have "(scast n :: 64 word) = of_nat k"
    using assms by (simp add: scast_eq)
  ultimately show ?thesis
    by (simp add: unat_of_nat)
qed

lemma sint_plus_1:
  fixes n :: "32 word"
  assumes "sint n = int k" "k < 2 ^ 31 - 1"
  shows "sint (n + 1) = int (k + 1)"
proof -
  have "sint (n + 1) = signed_take_bit 31 (int k + 1)"
    using assms(1) by (simp add: sint_word_add)
  also have "\<dots> = int k + 1"
    using assms(2) by (intro signed_take_bit_int_eq_self) simp_all
  finally show ?thesis by simp
qed

lemma unat_times_2:
  fixes w :: "64 word"
  assumes "unat w < 2 ^ 32"
  shows "unat (w * 2) = 2 * unat w"
  using assms by (simp add: unat_word_ariths)

lemma sint_minus_1_not_nat: "sint (n :: 32 word) = int k \<Longrightarrow> n \<noteq> - 1"
  by auto

lemma heap_ok_fresh: "heap_ok st \<Longrightarrow> mem st (nxt st) = None"
  by (simp add: heap_ok_def)

lemma strmake_loop_step:
  assumes ok: "heap_ok st" and pos: "0 < unat sz"
  shows "strmake_loop ret out st sz =
     (if avail st < unat sz then Some (Inl Exit1)
      else if ret (unat sz) = - 1
      then strmake_loop ret out (st\<lparr>nxt := Suc (nxt st)\<rparr>) (sz * 2)
      else if sz \<le> scast (ret (unat sz))
      then (if sint (ret (unat sz)) = 2 ^ 31 - 1 then Some (Inl Fault)
            else strmake_loop ret out (st\<lparr>nxt := Suc (nxt st)\<rparr>) (scast (ret (unat sz) + 1)))
      else Some (Inr (Ptr (nxt st) 0,
             st\<lparr>mem := (mem st)(nxt st \<mapsto> Bytes (take (unat sz - 1) out @ [NUL] @
                     replicate (unat sz - Suc (min (unat sz - 1) (length out))) fill)),
                nxt := Suc (nxt st), avail := avail st - unat sz\<rparr>)))"
proof (cases "avail st < unat sz")
  case True
  with pos show ?thesis
    by (subst strmake_loop.simps) (simp add: xmalloc_def malloc_def alloc_def)
next
  case False
  let ?n = "unat sz"
  define bs where "bs = take (?n - 1) out @ [NUL] @
     replicate (?n - Suc (min (?n - 1) (length out))) fill"
  let ?st1 = "st\<lparr>mem := (mem st)(nxt st \<mapsto> Bytes (replicate ?n fill)), nxt := Suc (nxt st),
                  avail := avail st - ?n\<rparr>"
  let ?cs = "take (?n - 1) out @ [NUL]"
  let ?st2 = "st\<lparr>mem := (mem st)(nxt st \<mapsto> Bytes bs), nxt := Suc (nxt st),
                  avail := avail st - ?n\<rparr>"
  have xm: "xmalloc st ?n = Inr (Ptr (nxt st) 0, ?st1)"
    using False pos by (simp add: xmalloc_def malloc_def alloc_def)
  have wr: "write_bytes ?st1 (Ptr (nxt st) 0) ?cs = Inr ?st2"
    using pos by (auto simp: write_bytes_def min_def bs_def)
  have vs: "vsnprintf ret out ?st1 (Ptr (nxt st) 0) ?n = Inr (ret ?n, ?st2)"
    using pos wr by (simp add: vsnprintf_def)
  have lb: "length bs = ?n"
    using pos by (auto simp: min_def bs_def)
  have "(mem st)(nxt st := None) = mem st"
    using heap_ok_fresh [OF ok] by (simp add: fun_upd_idem)
  then have fr: "free ?st2 (Ptr (nxt st) 0) = Inr (st\<lparr>nxt := Suc (nxt st)\<rparr>)"
    using False lb by (simp add: free_def)
  show ?thesis
    using False by (subst strmake_loop.simps) (simp add: xm vs fr, simp add: bs_def)
qed

lemma renders_length: "renders ret out \<Longrightarrow> length out < 2 ^ 31"
proof -
  assume r: "renders ret out"
  then have "sint (ret (Suc (length out))) = int (length out)"
    by (auto simp: renders_def dest: spec [of _ "Suc (length out)"])
  then show ?thesis by (rule sint_nat_less)
qed

lemma strmake_loop_correct:
  assumes r: "renders ret out"
  shows "heap_ok st \<Longrightarrow> 0 < unat sz \<Longrightarrow> unat sz \<le> max 100 (2 * length out) \<Longrightarrow>
    \<exists>res. strmake_loop ret out st sz = Some res \<and>
      (\<forall>p st'. res = Inr (p, st') \<longrightarrow> strmake_post out st p st') \<and>
      (length out < 2 ^ 31 - 1 \<and> max 100 (2 * length out) \<le> avail st \<longrightarrow>
         (\<exists>p st'. res = Inr (p, st')))"
proof (induction "Suc (length out) - unat sz" arbitrary: st sz rule: less_induct)
  case less
  let ?n = "unat sz"
  let ?st' = "st\<lparr>nxt := Suc (nxt st)\<rparr>"
  note step = strmake_loop_step [OF less.prems(1,2), of ret out]
  have lo: "length out < 2 ^ 31" using r by (rule renders_length)
  have ok': "heap_ok ?st'"
    using less.prems(1) by (simp add: heap_ok_def)
  have post': "strmake_post out st p st''" if "strmake_post out ?st' p st''" for p st''
    using that by (auto simp: strmake_post_def intro: Suc_leD)
  show ?case
  proof (cases "avail st < ?n")
    case True
    with step less.prems(3) show ?thesis by (auto simp: max_def split: if_splits)
  next
    case False
    from r have "sint (ret ?n) = int (length out) \<or> (ret ?n = - 1 \<and> ?n \<le> length out)"
      by (simp add: renders_def)
    then show ?thesis
    proof
      assume m1: "ret ?n = - 1 \<and> ?n \<le> length out"
      then have "?n < 2 ^ 32" using lo by simp
      then have u: "unat (sz * 2) = 2 * ?n" by (rule unat_times_2)
      have "Suc (length out) - unat (sz * 2) < Suc (length out) - ?n"
        "0 < unat (sz * 2)" "unat (sz * 2) \<le> max 100 (2 * length out)"
        using u m1 less.prems(2) by (auto simp: max_def)
      from less.hyps [OF this(1) ok' this(2,3)] obtain res where
        "strmake_loop ret out ?st' (sz * 2) = Some res"
        "\<forall>p st''. res = Inr (p, st'') \<longrightarrow> strmake_post out ?st' p st''"
        "length out < 2 ^ 31 - 1 \<and> max 100 (2 * length out) \<le> avail ?st' \<longrightarrow>
           (\<exists>p st''. res = Inr (p, st''))"
        by blast
      with step False m1 post' show ?thesis by auto
    next
      assume len: "sint (ret ?n) = int (length out)"
      then have nm: "ret ?n \<noteq> - 1" by auto
      have sc: "sz \<le> scast (ret ?n) \<longleftrightarrow> ?n \<le> length out"
        using scast_nat [OF len] by (simp add: word_le_nat_alt)
      show ?thesis
      proof (cases "?n \<le> length out")
        case small: True
        show ?thesis
        proof (cases "length out = 2 ^ 31 - 1")
          case True
          with len have "sint (ret ?n) = 2 ^ 31 - 1" by simp
          with step False nm sc small True show ?thesis by simp
        next
          case ne: False
          with lo have lt: "length out < 2 ^ 31 - 1" by simp
          have u: "unat (scast (ret ?n + 1) :: 64 word) = length out + 1"
            using scast_nat [OF sint_plus_1 [OF len lt]] .
          have ns: "sint (ret ?n) \<noteq> 2 ^ 31 - 1"
            using len ne by simp
          have "Suc (length out) - unat (scast (ret ?n + 1) :: 64 word) < Suc (length out) - ?n"
            "0 < unat (scast (ret ?n + 1) :: 64 word)"
            "unat (scast (ret ?n + 1) :: 64 word) \<le> max 100 (2 * length out)"
            using u small less.prems(2) by (auto simp: max_def)
          from less.hyps [OF this(1) ok' this(2,3)] obtain res where
            "strmake_loop ret out ?st' (scast (ret ?n + 1)) = Some res"
            "\<forall>p st''. res = Inr (p, st'') \<longrightarrow> strmake_post out ?st' p st''"
            "length out < 2 ^ 31 - 1 \<and> max 100 (2 * length out) \<le> avail ?st' \<longrightarrow>
               (\<exists>p st''. res = Inr (p, st''))"
            by blast
          with step False nm sc small ns post' show ?thesis by auto
        qed
      next
        case big: False
        then have "take (?n - 1) out = out" by simp
        then have "strmake_post out st (Ptr (nxt st) 0)
           (st\<lparr>mem := (mem st)(nxt st \<mapsto> Bytes (take (?n - 1) out @ [NUL] @
                     replicate (?n - Suc (min (?n - 1) (length out))) fill)),
                nxt := Suc (nxt st), avail := avail st - ?n\<rparr>)"
          unfolding strmake_post_def
          by (intro exI [of _ "nxt st"] exI [of _ "out @ [NUL] @
                replicate (?n - Suc (min (?n - 1) (length out))) fill"]) simp
        with step False nm sc big show ?thesis by simp
      qed
    qed
  qed
qed

lemma cstring_prefix:
  assumes m: "mem st b = Some (Bytes bs)"
    and t: "take (Suc (length t)) (drop off bs) = t @ [NUL]" and n: "NUL \<notin> set t"
  shows "cstring st (Ptr b off) = Some t"
proof -
  have d: "drop off bs = t @ NUL # drop (Suc (length t)) (drop off bs)"
    using append_take_drop_id [of "Suc (length t)" "drop off bs"] t by simp
  then have "NUL \<in> set (drop off bs)"
    by (metis in_set_conv_decomp)
  moreover have "takeWhile (\<lambda>c. c \<noteq> NUL) (drop off bs) = t"
    using n by (subst d) (auto simp: takeWhile_tail)
  ultimately show ?thesis
    using m by (simp add: cstring_def)
qed

lemma cstring_intro:
  assumes m: "mem st b = Some (Bytes (pre @ t @ NUL # rest))" and l: "length pre = off"
    and n: "NUL \<notin> set t"
  shows "cstring st (Ptr b off) = Some t"
  using l n by (intro cstring_prefix [OF m]) simp_all

lemma cstring_elim:
  assumes c: "cstring st (Ptr b off) = Some t"
  shows "\<exists>pre rest. mem st b = Some (Bytes (pre @ t @ NUL # rest)) \<and> length pre = off \<and> NUL \<notin> set t"
proof -
  from c obtain bs where m: "mem st b = Some (Bytes bs)" and n: "NUL \<in> set (drop off bs)"
    and t: "t = takeWhile (\<lambda>c. c \<noteq> NUL) (drop off bs)"
    by (auto simp: cstring_def split: option.splits obj.splits if_splits)
  from n have le: "off \<le> length bs"
    by (cases "off \<le> length bs") auto
  have ne: "dropWhile (\<lambda>c. c \<noteq> NUL) (drop off bs) \<noteq> []"
    using n by (simp add: dropWhile_eq_Nil_conv)
  then have "\<not> (hd (dropWhile (\<lambda>c. c \<noteq> NUL) (drop off bs)) \<noteq> NUL)"
    by (rule hd_dropWhile)
  with ne obtain rest where r: "dropWhile (\<lambda>c. c \<noteq> NUL) (drop off bs) = NUL # rest"
    by (cases "dropWhile (\<lambda>c. c \<noteq> NUL) (drop off bs)") auto
  have "drop off bs = t @ NUL # rest"
    using takeWhile_dropWhile_id [of "\<lambda>c. c \<noteq> NUL" "drop off bs"] t r by simp
  then have "bs = take off bs @ t @ NUL # rest"
    using append_take_drop_id [of off bs] by simp
  with m have "mem st b = Some (Bytes (take off bs @ t @ NUL # rest))" by simp
  moreover have "length (take off bs) = off" using le by simp
  moreover have "NUL \<notin> set t" using c by (rule cstring_no_NUL)
  ultimately show ?thesis by blast
qed

lemma cstring_drop:
  assumes "cstring st (Ptr b off) = Some t" and "k \<le> length t"
  shows "cstring st (Ptr b (off + k)) = Some (drop k t)"
proof -
  from cstring_elim [OF assms(1)] obtain pre rest where
    m: "mem st b = Some (Bytes (pre @ t @ NUL # rest))"
    and l: "length pre = off" and n: "NUL \<notin> set t"
    by blast
  have "pre @ t @ NUL # rest = (pre @ take k t) @ drop k t @ NUL # rest"
    by simp
  with m have m2: "mem st b = Some (Bytes ((pre @ take k t) @ drop k t @ NUL # rest))"
    by simp
  have "length (pre @ take k t) = off + k"
    using l assms(2) by simp
  moreover have "NUL \<notin> set (drop k t)"
    using n by (meson in_set_dropD)
  ultimately show ?thesis
    by (rule cstring_intro [OF m2])
qed

lemma write_NUL_split:
  assumes c: "cstring st (Ptr b off) = Some t" and k: "k < length t"
  shows "\<exists>bs'. write_bytes st (Ptr b (off + k)) [NUL] = Inr (st\<lparr>mem := (mem st)(b \<mapsto> Bytes bs')\<rparr>) \<and>
           cstring (st\<lparr>mem := (mem st)(b \<mapsto> Bytes bs')\<rparr>) (Ptr b off) = Some (take k t) \<and>
           cstring (st\<lparr>mem := (mem st)(b \<mapsto> Bytes bs')\<rparr>) (Ptr b (off + Suc k)) = Some (drop (Suc k) t)"
proof -
  from cstring_elim [OF c] obtain pre rest where
    m: "mem st b = Some (Bytes (pre @ t @ NUL # rest))"
    and l: "length pre = off" and n: "NUL \<notin> set t"
    by blast
  define bs where "bs = pre @ t @ NUL # rest"
  define bs' where "bs' = pre @ take k t @ NUL # drop (Suc k) t @ NUL # rest"
  let ?st' = "st\<lparr>mem := (mem st)(b \<mapsto> Bytes bs')\<rparr>"
  have tk: "take (off + k) bs = pre @ take k t"
    using l k by (simp add: bs_def less_imp_le)
  have dk: "drop (off + k + 1) bs = drop (Suc k) t @ NUL # rest"
    using l k by (simp add: bs_def less_imp_le)
  have lb: "off + k + 1 \<le> length bs"
    using l k by (simp add: bs_def)
  have "take (off + k) bs @ [NUL] @ drop (off + k + 1) bs = bs'"
    unfolding tk dk by (simp add: bs'_def)
  with lb have w: "write_bytes st (Ptr b (off + k)) [NUL] = Inr ?st'"
    using m by (simp add: write_bytes_def bs_def [symmetric])
  have m1: "mem ?st' b = Some (Bytes (pre @ take k t @ NUL # (drop (Suc k) t @ NUL # rest)))"
    by (simp add: bs'_def)
  have "NUL \<notin> set (take k t)" using n by (meson in_set_takeD)
  with m1 l have 1: "cstring ?st' (Ptr b off) = Some (take k t)"
    by (rule cstring_intro)
  have m2: "mem ?st' b = Some (Bytes ((pre @ take k t @ [NUL]) @ drop (Suc k) t @ NUL # rest))"
    by (simp add: bs'_def)
  have "length (pre @ take k t @ [NUL]) = off + Suc k" using l k by simp
  moreover have "NUL \<notin> set (drop (Suc k) t)" using n by (meson in_set_dropD)
  ultimately have 2: "cstring ?st' (Ptr b (off + Suc k)) = Some (drop (Suc k) t)"
    by (rule cstring_intro [OF m2])
  from w 1 2 show ?thesis by blast
qed

lemma split_tokens_Nil:
  "dropWhile (\<lambda>c. c \<in> set d) inp = [] \<Longrightarrow> split_tokens d inp = []"
  by (subst split_tokens.simps) simp

lemma split_tokens_Cons:
  "dropWhile (\<lambda>c. c \<in> set d) inp \<noteq> [] \<Longrightarrow>
     split_tokens d inp =
       takeWhile (\<lambda>c. c \<notin> set d) (dropWhile (\<lambda>c. c \<in> set d) inp) #
       split_tokens d (drop 1 (dropWhile (\<lambda>c. c \<notin> set d) (dropWhile (\<lambda>c. c \<in> set d) inp)))"
  by (subst split_tokens.simps) simp

lemma split_tokens_no_empty: "[] \<notin> set (split_tokens d inp)"
proof (induction d inp rule: split_tokens.induct)
  case (1 d inp)
  let ?r = "dropWhile (\<lambda>c. c \<in> set d) inp"
  show ?case
  proof (cases "?r = []")
    case True
    then show ?thesis by (simp add: split_tokens_Nil)
  next
    case False
    then have h: "\<not> hd ?r \<in> set d" by (rule hd_dropWhile)
    from False obtain x xs where r: "?r = x # xs" by (cases ?r) blast+
    with h have "x \<notin> set d" by simp
    then have ne: "takeWhile (\<lambda>c. c \<notin> set d) ?r \<noteq> []" using r by simp
    have ih: "[] \<notin> set (split_tokens d (drop 1 (dropWhile (\<lambda>c. c \<notin> set d) ?r)))"
      using False by (rule "1.IH")
    show ?thesis
      unfolding split_tokens_Cons [OF False] using ne ih by simp
  qed
qed

lemma split_tokens_only_delims: "set inp \<subseteq> set d \<Longrightarrow> split_tokens d inp = []"
  by (rule split_tokens_Nil) (auto simp: dropWhile_eq_Nil_conv)

lemma split_tokens_example: "split_tokens '':'' ''a:b::c'' = [''a'', ''b'', ''c'']"
  by (simp add: split_tokens.simps)

lemma strtok_spec:
  assumes d: "cstring st delim = Some d"
    and start: "(if s \<noteq> Null then s else tok_save st) = Ptr b off"
    and tx: "cstring st (Ptr b off) = Some inp"
  shows "\<exists>tok st' bs' off'. strtok st s delim = Inr (tok, st') \<and>
           mem st' = (mem st)(b \<mapsto> Bytes bs') \<and> vars st' = vars st \<and> nxt st' = nxt st \<and>
           avail st' = avail st \<and> sp st' = sp st \<and> tok_save st' = Ptr b off' \<and>
           (if dropWhile (\<lambda>c. c \<in> set d) inp = []
            then tok = Null \<and> cstring st' (tok_save st') = Some []
            else (\<exists>k. tok = Ptr b k) \<and>
                 cstring st' tok = Some (takeWhile (\<lambda>c. c \<notin> set d)
                    (dropWhile (\<lambda>c. c \<in> set d) inp)) \<and>
                 cstring st' (tok_save st') = Some (drop 1 (dropWhile (\<lambda>c. c \<notin> set d)
                    (dropWhile (\<lambda>c. c \<in> set d) inp))))"
proof -
  let ?P = "\<lambda>c. c \<in> set d" and ?Q = "\<lambda>c. c \<notin> set d"
  define skip where "skip = length (takeWhile ?P inp)"
  define r where "r = dropWhile ?P inp"
  define len where "len = length (takeWhile ?Q r)"
  have r_drop: "r = drop skip inp"
    by (simp add: r_def skip_def dropWhile_eq_drop)
  have skip_le: "skip \<le> length inp"
    by (simp add: skip_def length_takeWhile_le)
  have len_le: "len \<le> length r"
    by (simp add: len_def length_takeWhile_le)
  from cstring_elim [OF tx] obtain bs where m: "mem st b = Some (Bytes bs)"
    by blast
  have same: "(mem st)(b \<mapsto> Bytes bs) = mem st"
    using m by (simp add: fun_upd_idem)
  have cr: "cstring st (Ptr b (off + skip)) = Some r"
    using cstring_drop [OF tx skip_le] by (simp add: r_drop)
  have unfold: "strtok st s delim =
     (if skip = length inp then Inr (Null, st\<lparr>tok_save := Ptr b (off + skip)\<rparr>)
      else if skip + len = length inp
      then Inr (Ptr b (off + skip), st\<lparr>tok_save := Ptr b (off + skip + len)\<rparr>)
      else (case write_bytes st (Ptr b (off + skip + len)) [NUL] of
              Inl e \<Rightarrow> Inl e
            | Inr st' \<Rightarrow> Inr (Ptr b (off + skip), st'\<lparr>tok_save := Ptr b (off + skip + (len + 1))\<rparr>)))"
    using d start tx
    by (simp add: strtok_def Let_def ptr_add_def skip_def len_def r_def dropWhile_eq_drop
        split: sum.splits)
  show ?thesis
  proof (cases "r = []")
    case True
    then have sk: "skip = length inp"
      using skip_le by (simp add: r_drop)
    have "cstring (st\<lparr>tok_save := Ptr b (off + skip)\<rparr>) (Ptr b (off + skip)) = Some []"
      using cr True by (simp add: cstring_def)
    with unfold sk True same show ?thesis
      unfolding r_def by (intro exI [of _ Null] exI [of _ "st\<lparr>tok_save := Ptr b (off + skip)\<rparr>"]
          exI [of _ bs] exI [of _ "off + skip"]) simp
  next
    case False
    then have sk: "skip \<noteq> length inp"
      by (simp add: r_drop)
    have lr: "length r = length inp - skip"
      by (simp add: r_drop)
    show ?thesis
    proof (cases "skip + len = length inp")
      case True
      then have ll: "len = length r"
        using lr by simp
      have "takeWhile ?Q r = take len r"
        unfolding len_def by (rule takeWhile_eq_take)
      moreover have "dropWhile ?Q r = drop len r"
        unfolding len_def by (rule dropWhile_eq_drop)
      ultimately have all: "takeWhile ?Q r = r" "dropWhile ?Q r = []"
        by (simp_all only: ll take_all drop_all le_refl)
      let ?st' = "st\<lparr>tok_save := Ptr b (off + skip + len)\<rparr>"
      have c1: "cstring ?st' (Ptr b (off + skip)) = Some (takeWhile ?Q r)"
        using cr by (simp only: all) (simp add: cstring_def)
      have "cstring st (Ptr b (off + skip + len)) = Some (drop len r)"
        using cstring_drop [OF cr len_le] .
      then have "cstring ?st' (Ptr b (off + skip + len)) = Some []"
        using True lr by (simp add: cstring_def)
      then have c2: "cstring ?st' (Ptr b (off + skip + len)) = Some (drop 1 (dropWhile ?Q r))"
        by (simp only: all drop_Nil)
      from unfold sk True False same c1 c2 show ?thesis
        unfolding r_def [symmetric]
        by (intro exI [of _ "Ptr b (off + skip)"] exI [of _ ?st'] exI [of _ bs]
            exI [of _ "off + skip + len"]) simp
    next
      case ne: False
      then have lt: "len < length r"
        using lr len_le skip_le by simp
      from write_NUL_split [OF cr lt] obtain bs' where
        w: "write_bytes st (Ptr b (off + skip + len)) [NUL] = Inr (st\<lparr>mem := (mem st)(b \<mapsto> Bytes bs')\<rparr>)"
        and w1: "cstring (st\<lparr>mem := (mem st)(b \<mapsto> Bytes bs')\<rparr>) (Ptr b (off + skip)) = Some (take len r)"
        and w2: "cstring (st\<lparr>mem := (mem st)(b \<mapsto> Bytes bs')\<rparr>) (Ptr b (off + skip + Suc len)) = Some (drop (Suc len) r)"
        by blast
      let ?st' = "st\<lparr>mem := (mem st)(b \<mapsto> Bytes bs'), tok_save := Ptr b (off + skip + (len + 1))\<rparr>"
      have tk: "take len r = takeWhile ?Q r"
        unfolding len_def by (rule takeWhile_eq_take [symmetric])
      have dr: "drop (Suc len) r = drop 1 (dropWhile ?Q r)"
        by (simp add: len_def dropWhile_eq_drop)
      have c1: "cstring ?st' (Ptr b (off + skip)) = Some (takeWhile ?Q r)"
        using w1 tk by (simp add: cstring_def)
      have c2: "cstring ?st' (Ptr b (off + skip + (len + 1))) = Some (drop 1 (dropWhile ?Q r))"
        using w2 dr by (simp add: cstring_def)
      from unfold sk ne False w c1 c2 show ?thesis
        unfolding r_def [symmetric]
        by (intro exI [of _ "Ptr b (off + skip)"] exI [of _ ?st'] exI [of _ bs']
            exI [of _ "off + skip + (len + 1)"]) simp
    qed
  qed
qed

lemma cstring_same_block:
  "(\<And>c off. p = Ptr c off \<Longrightarrow> mem st' c = mem st c) \<Longrightarrow> cstring st' p = cstring st p"
  by (cases p) (simp_all add: cstring_def)

lemma cstring_live: "cstring st p = Some t \<Longrightarrow> \<exists>c off bs. p = Ptr c off \<and> mem st c = Some (Bytes bs)"
  by (cases p) (auto simp: cstring_def split: option.splits obj.splits if_splits)

lemma cstring_other_block:
  assumes "\<And>c. c \<noteq> b \<Longrightarrow> mem st' c = mem st c" and "\<not> in_block b p"
  shows "cstring st' p = cstring st p"
  using assms by (intro cstring_same_block) (auto simp: in_block_def)

lemma texts_pointwise:
  "(\<And>p. p \<in> set xs \<Longrightarrow> cstring st' p = cstring st p) \<Longrightarrow> texts st' xs = texts st xs"
  by (induction xs) (simp_all split: option.splits)

lemma elements_live:
  "elements st a = Some xs \<Longrightarrow> str a = Ptr c off \<Longrightarrow> \<exists>ps. mem st c = Some (Slots ps)"
  by (auto simp: elements_def buffer_def split: option.splits obj.splits if_splits)

lemma xstrdup_cases:
  assumes ok: "heap_ok st" and c: "cstring st s = Some t"
  shows "xstrdup st s =
     (if Suc (length t) \<le> avail st
      then Inr (Ptr (nxt st) 0,
             st\<lparr>mem := (mem st)(nxt st \<mapsto> Bytes (t @ [NUL])), nxt := Suc (nxt st),
                avail := avail st - (Suc (length t))\<rparr>)
      else Inl Exit1)"
proof (cases "Suc (length t) \<le> avail st")
  case False
  with c show ?thesis
    by (simp add: xstrdup_def strlen_def xmalloc_def malloc_def alloc_def)
next
  case True
  define st1 where "st1 = st\<lparr>mem := (mem st)(nxt st \<mapsto> Bytes (replicate (Suc (length t)) fill)),
                  nxt := Suc (nxt st), avail := avail st - Suc (length t)\<rparr>"
  have xm: "xmalloc st (Suc (length t)) = Inr (Ptr (nxt st) 0, st1)"
    using True by (simp add: xmalloc_def malloc_def alloc_def st1_def)
  from cstring_live [OF c] obtain b off bs where s: "s = Ptr b off" "mem st b = Some (Bytes bs)"
    by blast
  with ok have "b \<noteq> nxt st"
    using heap_ok_fresh by fastforce
  then have "cstring st1 s = cstring st s"
    using s by (simp add: cstring_def st1_def)
  with c have c1: "cstring st1 s = Some t" by simp
  have wr: "write_bytes st1 (Ptr (nxt st) 0) (t @ [NUL]) =
      Inr (st\<lparr>mem := (mem st)(nxt st \<mapsto> Bytes (t @ [NUL])), nxt := Suc (nxt st),
                avail := avail st - Suc (length t)\<rparr>)"
    by (simp add: write_bytes_def st1_def)
  show ?thesis
    using True c by (simp add: xstrdup_def strlen_def xm strcpy_def c1 wr)
qed

lemma split_rest_shorter:
  assumes "dropWhile P xs \<noteq> []"
  shows "length (drop 1 (dropWhile Q (dropWhile P xs))) < length xs"
proof -
  have a: "length (dropWhile Q (dropWhile P xs)) \<le> length (dropWhile P xs)"
    by (rule length_dropWhile_le)
  have b: "0 < length (dropWhile P xs)"
    using assms by (cases "dropWhile P xs") simp_all
  have c: "length (dropWhile P xs) \<le> length xs"
    by (rule length_dropWhile_le)
  show ?thesis
    unfolding length_drop using a b c by linarith
qed

lemma fromstring_loop_Null: "fromstring_loop st array delim Null = Some (Inr st)"
  by (subst fromstring_loop.simps) simp

lemma unat32_times_2:
  fixes w :: "32 word"
  assumes "unat w < 2 ^ 31"
  shows "unat (w * 2) = 2 * unat w"
  using assms by (simp add: unat_word_ariths)

lemma grown_size:
  fixes sz :: "32 word"
  assumes "unat sz < 2 ^ 31"
  shows "unat (if sz = 0 then 16 else sz * 2 :: 32 word) = (if unat sz = 0 then 16 else 2 * unat sz)"
  using unat32_times_2 [OF assms] by (simp add: unat_eq_0)

lemma fromstring_room:
  assumes P: "tokens_fit a toks av"
    and av1: "av1 = av - Suc (length token)"
    and toks: "toks = token # rest"
  shows "count a \<noteq> size_sa a \<or>
     (unat (size_sa a) < 2 ^ 31 \<and>
      8 * unat (if size_sa a = 0 then 16 else size_sa a * 2 :: 32 word) \<le> av1)"
proof (cases "count a = size_sa a")
  case False
  then show ?thesis by simp
next
  case True
  define c where "c = unat (size_sa a)"
  define r where "r = sum_list (map (\<lambda>t. Suc (length t)) rest)"
  have cc: "unat (count a) = c"
    using True by (simp add: c_def)
  from P have 1: "c + Suc (length rest) < 2 ^ 31"
    and 2: "Suc (length token) + r + 24 * (c + Suc (length rest)) + 128 \<le> av + 8 * c"
    by (simp_all add: tokens_fit_def toks cc c_def [symmetric] r_def)
  from 1 have lt: "c < 2 ^ 31" by simp
  have g: "unat (if size_sa a = 0 then 16 else size_sa a * 2 :: 32 word) =
      (if c = 0 then 16 else 2 * c)"
    using grown_size [of "size_sa a"] lt by (simp add: c_def)
  have "8 * (if c = 0 then 16 else 2 * c) \<le> av1"
    using 2 av1 by (cases "c = 0") simp_all
  with lt g show ?thesis
    by (simp add: c_def)
qed

lemma fromstring_potential:
  assumes P: "tokens_fit a toks av"
    and toks: "toks = token # toks'"
    and cnt: "unat (count a2) = Suc (unat (count a))"
    and sz: "size_sa a2 = (if count a = size_sa a
               then (if size_sa a = 0 then 16 else size_sa a * 2) else size_sa a)"
    and av: "av3 + 8 * unat (size_sa a2) = av - Suc (length token) + 8 * unat (size_sa a)"
    and fits: "Suc (length token) \<le> av"
  shows "tokens_fit a2 toks' av3"
proof -
  define c where "c = unat (count a)"
  define z where "z = unat (size_sa a)"
  define z2 where "z2 = unat (size_sa a2)"
  define r where "r = sum_list (map (\<lambda>t. Suc (length t)) toks')"
  from P have 0: "8 * z \<le> 16 * c + 128" and 1: "c + Suc (length toks') < 2 ^ 31"
    and 2: "Suc (length token) + r + 24 * (c + Suc (length toks')) + 128 \<le> av + 8 * z"
    by (simp_all add: tokens_fit_def toks c_def [symmetric] z_def [symmetric] r_def)
  have av': "av3 + 8 * z2 = av - Suc (length token) + 8 * z"
    using av by (simp add: z_def z2_def)
  have z2: "8 * z2 \<le> 16 * Suc c + 128"
  proof (cases "count a = size_sa a")
    case False
    then have "z2 = z" using sz by (simp add: z_def z2_def)
    with 0 show ?thesis by simp
  next
    case True
    then have zc: "z = c" by (simp add: z_def c_def)
    with 1 have "unat (size_sa a) < 2 ^ 31" by (simp add: z_def)
    from grown_size [OF this] True sz have "z2 = (if z = 0 then 16 else 2 * z)"
      by (simp add: z_def z2_def)
    with zc show ?thesis by (cases "z = 0") simp_all
  qed
  define av1 where "av1 = av - Suc (length token)"
  have av1: "av = av1 + Suc (length token)"
    using fits by (simp add: av1_def)
  have "av3 + 8 * z2 = av1 + 8 * z"
    using av' by (simp add: av1_def)
  with 2 have 3: "r + 24 * (Suc c + length toks') + 128 \<le> av3 + 8 * z2"
    unfolding av1 by simp
  from z2 1 3 show ?thesis
    by (simp add: tokens_fit_def cnt c_def [symmetric] z2_def [symmetric] r_def)
qed

lemma fromstring_loop_correct:
  assumes dl: "\<not> in_block b delim"
  shows "heap_ok st \<Longrightarrow> vars st array = Some a \<Longrightarrow> elements st a = Some xs \<Longrightarrow>
    texts st xs = Some ts \<Longrightarrow> (\<forall>p\<in>set xs. \<not> in_block b p) \<Longrightarrow>
    cstring st delim = Some d \<Longrightarrow> tok_save st = Ptr b off \<Longrightarrow>
    cstring st (Ptr b off) = Some rest \<Longrightarrow>
    (tok = Null \<and> toks = []) \<or>
      (\<exists>k token. tok = Ptr b k \<and> cstring st tok = Some token \<and>
         toks = token # split_tokens d rest) \<Longrightarrow>
    \<exists>res. fromstring_loop st array delim tok = Some res \<and>
      (\<forall>st'. res = Inr st' \<longrightarrow>
         (\<exists>a' xs'. vars st' array = Some a' \<and> elements st' a' = Some xs' \<and>
            texts st' xs' = Some (ts @ toks) \<and> (\<forall>p\<in>set xs'. \<not> in_block b p) \<and>
            (\<exists>bs. mem st' b = Some (Bytes bs)) \<and> heap_ok st' \<and> sp st' = sp st \<and>
            (\<forall>v. v \<noteq> array \<longrightarrow> vars st' v = vars st v))) \<and>
      (tokens_fit a toks (avail st) \<longrightarrow> (\<exists>st'. res = Inr st'))"
proof (induction "length rest" arbitrary: st a xs ts off rest tok toks rule: less_induct)
  case less
  note ok = less.prems(1) and v = less.prems(2) and el = less.prems(3) and ts = less.prems(4)
    and nb = less.prems(5) and cd = less.prems(6) and sv = less.prems(7) and cr = less.prems(8)
  from cstring_live [OF cr] obtain bs0 where mb: "mem st b = Some (Bytes bs0)"
    by auto
  from less.prems(9) show ?case
  proof
    assume "tok = Null \<and> toks = []"
    with ok v el ts nb mb show ?thesis
      by (simp add: fromstring_loop_Null)
  next
    assume "\<exists>k token. tok = Ptr b k \<and> cstring st tok = Some token \<and>
         toks = token # split_tokens d rest"
    then obtain k token where tok: "tok = Ptr b k" and ct: "cstring st tok = Some token"
      and toks: "toks = token # split_tokens d rest"
      by blast
    show ?thesis
    proof (cases "Suc (length token) \<le> avail st")
      case False
      then have "xstrdup st tok = Inl Exit1"
        using xstrdup_cases [OF ok ct] by simp
      then have "fromstring_loop st array delim tok = Some (Inl Exit1)"
        using tok by (subst fromstring_loop.simps) simp
      moreover have "\<not> (tokens_fit a toks (avail st))"
        using False by (simp add: tokens_fit_def toks)
      ultimately show ?thesis by simp
    next
      case True
      note fits = True
      define p where "p = Ptr (nxt st) 0"
      define st1 where "st1 = st\<lparr>mem := (mem st)(nxt st \<mapsto> Bytes (token @ [NUL])),
          nxt := Suc (nxt st), avail := avail st - Suc (length token)\<rparr>"
      have xd: "xstrdup st tok = Inr (p, st1)"
        using xstrdup_cases [OF ok ct] True by (simp add: p_def st1_def)
      have bn: "b < nxt st" using ok mb by (rule live_below_nxt)
      have m1: "\<And>c. c \<noteq> nxt st \<Longrightarrow> mem st1 c = mem st c"
        by (simp add: st1_def)
      have f1: "vars st1 = vars st" "tok_save st1 = tok_save st" "sp st1 = sp st"
        "nxt st1 = Suc (nxt st)"
        by (simp_all add: st1_def)
      have av1: "avail st1 = avail st - Suc (length token)"
        by (simp add: st1_def)
      have ok1: "heap_ok st1"
        using ok by (simp add: heap_ok_def st1_def)
      have keep: "cstring st1 q = Some u" if "cstring st q = Some u" for q u
      proof -
        from cstring_live [OF that] obtain c o' bs where q: "q = Ptr c o'" "mem st c = Some (Bytes bs)"
          by blast
        then have "c \<noteq> nxt st" using live_below_nxt [OF ok] by fastforce
        then have "cstring st1 q = cstring st q"
          using q m1 by (intro cstring_same_block) simp
        with that show ?thesis by simp
      qed
      have el1: "elements st1 a = Some xs"
      proof -
        have "elements st1 a = elements st a"
        proof (rule elements_same_block)
          fix c o' assume "str a = Ptr c o'"
          from elements_live [OF el this] obtain ps where "mem st c = Some (Slots ps)" ..
          then have "c \<noteq> nxt st" using live_below_nxt [OF ok] by fastforce
          then show "mem st1 c = mem st c" by (rule m1)
        qed
        with el show ?thesis by simp
      qed
      have ts1: "texts st1 xs = Some ts"
      proof -
        have "texts st1 xs = texts st xs"
        proof (rule texts_pointwise)
          fix q assume "q \<in> set xs"
          with texts_Some [OF ts] obtain u where "cstring st q = Some u"
            by (metis in_set_conv_nth)
          with keep show "cstring st1 q = cstring st q" by simp
        qed
        with ts show ?thesis by simp
      qed
      have "mem st1 (nxt st) = Some (Bytes ([] @ token @ NUL # []))"
        by (simp add: st1_def)
      then have cp: "cstring st1 p = Some token"
        unfolding p_def using cstring_no_NUL [OF ct] by (intro cstring_intro) simp_all
      have pb: "\<not> in_block b p"
        using bn by (simp add: in_block_def p_def)
      show ?thesis
      proof (cases "strarray_add st1 array p")
        case (Inl e)
        then have "fromstring_loop st array delim tok = Some (Inl e)"
          using tok xd by (subst fromstring_loop.simps) simp
        moreover have "\<not> (tokens_fit a toks (avail st))"
        proof
          assume P: "tokens_fit a toks (avail st)"
          have v1: "vars st1 array = Some a"
            using v f1(1) by simp
          have "count a \<noteq> size_sa a \<or>
             (unat (size_sa a) < 2 ^ 31 \<and>
              8 * unat (if size_sa a = 0 then 16 else size_sa a * 2 :: 32 word) \<le> avail st1)"
            using P av1 by (rule fromstring_room [OF _ _ toks])
          from strarray_add_returns [OF ok1 v1 el1 this, of p] Inl show False
            by auto
        qed
        ultimately show ?thesis by simp
      next
        case (Inr st2)
        have v1: "vars st1 array = Some a"
          using v f1(1) by simp
        from strarray_add_effect [OF ok1 v1 el1 Inr] obtain a2 where
          a2: "vars st2 = (vars st1)(array \<mapsto> a2)" "elements st2 a2 = Some (xs @ [p])"
            "heap_ok st2"
            "\<forall>c bs. mem st2 c = Some (Bytes bs) \<longleftrightarrow> mem st1 c = Some (Bytes bs)"
            "tok_save st2 = tok_save st1" "sp st2 = sp st1"
            "unat (count a2) = Suc (unat (count a))"
            "size_sa a2 = (if count a = size_sa a
               then (if size_sa a = 0 then 16 else size_sa a * 2) else size_sa a)"
            "avail st2 + 8 * unat (size_sa a2) = avail st1 + 8 * unat (size_sa a)"
          by auto
        have cs2: "\<And>q. cstring st2 q = cstring st1 q"
          using a2(4) by (rule cstring_same_bytes)
        have ts2: "texts st2 (xs @ [p]) = Some (ts @ [token])"
          using ts1 cp by (simp add: texts_append texts_cong [of st2 st1, OF cs2] cs2)
        have cd2: "cstring st2 delim = Some d"
          using keep [OF cd] cs2 by simp
        have cr2: "cstring st2 (Ptr b off) = Some rest"
          using keep [OF cr] cs2 by simp
        have start: "(if Null \<noteq> Null then Null else tok_save st2) = Ptr b off"
          using a2(5) f1(2) sv by simp
        from strtok_spec [OF cd2 start cr2] obtain tok' st3 bs' off' where
          sk: "strtok st2 Null delim = Inr (tok', st3)"
          and m3: "mem st3 = (mem st2)(b \<mapsto> Bytes bs')" and v3: "vars st3 = vars st2"
          and n3: "nxt st3 = nxt st2" and sp3: "sp st3 = sp st2" and av3: "avail st3 = avail st2"
          and sv3: "tok_save st3 = Ptr b off'"
          and cases3: "if dropWhile (\<lambda>c. c \<in> set d) rest = []
            then tok' = Null \<and> cstring st3 (tok_save st3) = Some []
            else (\<exists>k. tok' = Ptr b k) \<and>
                 cstring st3 tok' = Some (takeWhile (\<lambda>c. c \<notin> set d)
                    (dropWhile (\<lambda>c. c \<in> set d) rest)) \<and>
                 cstring st3 (tok_save st3) = Some (drop 1 (dropWhile (\<lambda>c. c \<notin> set d)
                    (dropWhile (\<lambda>c. c \<in> set d) rest)))"
          by blast
        have unf: "fromstring_loop st array delim tok = fromstring_loop st3 array delim tok'"
          using tok xd Inr sk by (subst fromstring_loop.simps) simp
        from cstring_live [OF cr2] obtain bs2 where mb2: "mem st2 b = Some (Bytes bs2)"
          by auto
        have bn2: "b < nxt st2" using a2(3) mb2 by (rule live_below_nxt)
        have ok3: "heap_ok st3"
          using a2(3) bn2 by (auto simp: heap_ok_def m3 n3)
        have m3o: "\<And>c. c \<noteq> b \<Longrightarrow> mem st3 c = mem st2 c"
          by (simp add: m3)
        have va3: "vars st3 array = Some a2"
          using v3 a2(1) by simp
        have el3: "elements st3 a2 = Some (xs @ [p])"
        proof -
          have "elements st3 a2 = elements st2 a2"
          proof (rule elements_same_block)
            fix c o' assume "str a2 = Ptr c o'"
            from elements_live [OF a2(2) this] obtain ps where "mem st2 c = Some (Slots ps)" ..
            with mb2 have "c \<noteq> b" by auto
            then show "mem st3 c = mem st2 c" by (rule m3o)
          qed
          with a2(2) show ?thesis by simp
        qed
        have nb3: "\<forall>q\<in>set (xs @ [p]). \<not> in_block b q"
          using nb pb by simp
        have ts3: "texts st3 (xs @ [p]) = Some (ts @ [token])"
        proof -
          have "texts st3 (xs @ [p]) = texts st2 (xs @ [p])"
          proof (rule texts_pointwise)
            fix q assume "q \<in> set (xs @ [p])"
            with nb3 have "\<not> in_block b q" by blast
            with m3o show "cstring st3 q = cstring st2 q" by (rule cstring_other_block)
          qed
          with ts2 show ?thesis by simp
        qed
        have cd3: "cstring st3 delim = Some d"
          using cstring_other_block [of b st3 st2 delim, OF m3o dl] cd2 by simp
        have mb3: "\<exists>bs. mem st3 b = Some (Bytes bs)"
          by (simp add: m3)
        have sp_eq: "sp st3 = sp st"
          using sp3 a2(6) f1(3) by simp
        have frame: "\<forall>w. w \<noteq> array \<longrightarrow> vars st3 w = vars st w"
          using v3 a2(1) f1(1) by simp
        show ?thesis
        proof (cases "dropWhile (\<lambda>c. c \<in> set d) rest = []")
          case True
          with cases3 have "tok' = Null" by (simp only: if_True)
          with unf have run: "fromstring_loop st array delim tok = Some (Inr st3)"
            by (simp add: fromstring_loop_Null)
          have "toks = [token]"
            using toks True by (simp add: split_tokens_Nil)
          with ts3 have ts3': "texts st3 (xs @ [p]) = Some (ts @ toks)"
            by simp
          show ?thesis
          proof (intro exI [of _ "Inr st3"] conjI impI allI)
            show "fromstring_loop st array delim tok = Some (Inr st3)" by (rule run)
            show "\<exists>st'. (Inr st3 :: error + state) = Inr st'" by simp
            fix st' assume "(Inr st3 :: error + state) = Inr st'"
            then have "st' = st3" by simp
            with va3 el3 ts3' nb3 mb3 ok3 sp_eq frame show
              "\<exists>a' xs'. vars st' array = Some a' \<and> elements st' a' = Some xs' \<and>
                texts st' xs' = Some (ts @ toks) \<and>
                (\<forall>p\<in>set xs'. \<not> in_block b p) \<and>
                (\<exists>bs. mem st' b = Some (Bytes bs)) \<and> heap_ok st' \<and> sp st' = sp st \<and>
                (\<forall>v. v \<noteq> array \<longrightarrow> vars st' v = vars st v)"
              by blast
          qed
        next
          case False
          define token' where "token' = takeWhile (\<lambda>c. c \<notin> set d) (dropWhile (\<lambda>c. c \<in> set d) rest)"
          define rest' where "rest' = drop 1 (dropWhile (\<lambda>c. c \<notin> set d) (dropWhile (\<lambda>c. c \<in> set d) rest))"
          from cases3 False have "(\<exists>k. tok' = Ptr b k) \<and> cstring st3 tok' = Some token' \<and>
              cstring st3 (tok_save st3) = Some rest'"
            unfolding token'_def rest'_def by (simp only: if_False)
          then obtain k' where
            t3: "tok' = Ptr b k'" "cstring st3 tok' = Some token'"
              "cstring st3 (tok_save st3) = Some rest'"
            by blast
          have shorter: "length rest' < length rest"
            unfolding rest'_def using False by (rule split_rest_shorter)
          have sp_tok: "split_tokens d rest = token' # split_tokens d rest'"
            unfolding token'_def rest'_def using False by (rule split_tokens_Cons)
          have cr3: "cstring st3 (Ptr b off') = Some rest'"
            using t3(3) sv3 by simp
          have arg: "(tok' = Null \<and> token' # split_tokens d rest' = []) \<or>
            (\<exists>k token. tok' = Ptr b k \<and> cstring st3 tok' = Some token \<and>
               token' # split_tokens d rest' = token # split_tokens d rest')"
            using t3 by blast
          from less.hyps [OF shorter ok3 va3 el3 ts3 nb3 cd3 sv3 cr3 arg] obtain res where
            r: "fromstring_loop st3 array delim tok' = Some res"
            "\<forall>st'. res = Inr st' \<longrightarrow>
              (\<exists>a' xs'. vars st' array = Some a' \<and> elements st' a' = Some xs' \<and>
                texts st' xs' = Some ((ts @ [token]) @ token' # split_tokens d rest') \<and>
                (\<forall>p\<in>set xs'. \<not> in_block b p) \<and>
                (\<exists>bs. mem st' b = Some (Bytes bs)) \<and> heap_ok st' \<and> sp st' = sp st3 \<and>
                (\<forall>v. v \<noteq> array \<longrightarrow> vars st' v = vars st3 v))"
            and p3: "tokens_fit a2 (token' # split_tokens d rest') (avail st3) \<longrightarrow> (\<exists>st'. res = Inr st')"
            by blast
          have eq: "(ts @ [token]) @ token' # split_tokens d rest' = ts @ toks"
            using toks sp_tok by simp
          have tl: "toks = token # token' # split_tokens d rest'"
            using toks sp_tok by simp
          have prog: "\<exists>st'. res = Inr st'"
            if P: "tokens_fit a toks (avail st)"
          proof -
            have "tokens_fit a2 (token' # split_tokens d rest') (avail st3)"
            proof (rule fromstring_potential [OF P tl a2(7) a2(8) _ fits])
              show "avail st3 + 8 * unat (size_sa a2) =
                  avail st - Suc (length token) + 8 * unat (size_sa a)"
                using av3 a2(9) av1 by simp
            qed
            with p3 show ?thesis by blast
          qed
          from r(2) eq sp_eq frame have post: "\<forall>st'. res = Inr st' \<longrightarrow>
              (\<exists>a' xs'. vars st' array = Some a' \<and> elements st' a' = Some xs' \<and>
                texts st' xs' = Some (ts @ toks) \<and>
                (\<forall>p\<in>set xs'. \<not> in_block b p) \<and>
                (\<exists>bs. mem st' b = Some (Bytes bs)) \<and> heap_ok st' \<and> sp st' = sp st \<and>
                (\<forall>v. v \<noteq> array \<longrightarrow> vars st' v = vars st v))"
            by simp
          have run: "fromstring_loop st array delim tok = Some res"
            using r(1) unf by simp
          show ?thesis
          proof (intro exI [of _ res] conjI impI)
            show "fromstring_loop st array delim tok = Some res" by (rule run)
            show "\<forall>st'. res = Inr st' \<longrightarrow>
              (\<exists>a' xs'. vars st' array = Some a' \<and> elements st' a' = Some xs' \<and>
                texts st' xs' = Some (ts @ toks) \<and>
                (\<forall>p\<in>set xs'. \<not> in_block b p) \<and>
                (\<exists>bs. mem st' b = Some (Bytes bs)) \<and> heap_ok st' \<and> sp st' = sp st \<and>
                (\<forall>v. v \<noteq> array \<longrightarrow> vars st' v = vars st v))"
              by (rule post)
            assume "tokens_fit a toks (avail st)"
            then show "\<exists>st'. res = Inr st'" by (rule prog)
          qed
        qed
      qed
    qed
  qed
qed

lemma length_le_weight: "length ts \<le> sum_list (map (\<lambda>t. Suc (length t)) ts)"
  by (induction ts) simp_all

lemma split_tokens_weight:
  "sum_list (map (\<lambda>t. Suc (length t)) (split_tokens d inp)) \<le> Suc (length inp)"
proof (induction "length inp" arbitrary: inp rule: less_induct)
  case less
  let ?P = "\<lambda>c. c \<in> set d" and ?Q = "\<lambda>c. c \<notin> set d"
  show ?case
  proof (cases "dropWhile ?P inp = []")
    case True
    then show ?thesis by (simp only: split_tokens_Nil) simp
  next
    case False
    define r where "r = dropWhile ?P inp"
    define token where "token = takeWhile ?Q r"
    define q where "q = dropWhile ?Q r"
    define rest where "rest = drop 1 q"
    have sp: "split_tokens d inp = token # split_tokens d rest"
      unfolding token_def rest_def q_def r_def using False by (rule split_tokens_Cons)
    have shorter: "length rest < length inp"
      unfolding rest_def q_def r_def using False by (rule split_rest_shorter)
    have tq: "length token + length q = length r"
      unfolding token_def q_def length_append [symmetric]
      by (simp only: takeWhile_dropWhile_id)
    have rl: "length r \<le> length inp"
      unfolding r_def by (rule length_dropWhile_le)
    show ?thesis
    proof (cases "q = []")
      case True
      then have "rest = []" by (simp add: rest_def)
      then have "split_tokens d rest = []"
        by (simp add: split_tokens_Nil)
      with sp tq rl True show ?thesis by simp
    next
      case False
      then have "Suc (length rest) = length q"
        by (cases q) (simp_all add: rest_def)
      with less [OF shorter] tq rl sp show ?thesis by simp
    qed
  qed
qed

lemma split_tokens_count: "length (split_tokens d inp) \<le> Suc (length inp)"
  using length_le_weight [of "split_tokens d inp"] split_tokens_weight [of d inp] by linarith

lemma texts_length: "texts st xs = Some ts \<Longrightarrow> length ts = length xs"
  using texts_Some by blast

lemma ex_split_run:
  "\<exists>a st'. strarray_fromstring ex_split (Ptr 0 0) (Ptr 1 0) = Some (Inr (a, st'))"
  by (simp add: strarray_fromstring_def ex_split_def push_var_def pop_var_def xstrdup_def
      strlen_def cstring_def xmalloc_def malloc_def alloc_def strcpy_def write_bytes_def
      strtok_def ptr_add_def fromstring_loop.simps strarray_add_def xrealloc_def realloc_def
      store_slot_def free_def empty_strarray_def Let_def)

lemma ex_split_facts:
  "heap_ok ex_split"
  "cstring ex_split (Ptr 0 0) = Some ''a:b::c''"
  "cstring ex_split (Ptr 1 0) = Some '':''"
  by (simp_all add: heap_ok_def ex_split_def cstring_def)

lemma joined_snoc:
  "ts \<noteq> [] \<Longrightarrow> joined sep (ts @ [t]) = joined sep ts @ sep @ t"
  by (cases ts) simp_all

lemma joined_take_Suc:
  assumes "0 < i" and "i < length ts"
  shows "joined sep (take (Suc i) ts) = joined sep (take i ts) @ sep @ ts ! i"
proof -
  have "take (Suc i) ts = take i ts @ [ts ! i]"
    using assms by (simp add: take_Suc_conv_app_nth)
  moreover have "take i ts \<noteq> []"
    using assms by auto
  ultimately show ?thesis
    by (simp add: joined_snoc)
qed

lemma length_concat_sep:
  "length (concat (map (\<lambda>u. sep @ u) ts)) = sum_list (map length ts) + length ts * length sep"
  by (induction ts) simp_all

lemma joined_length:
  "ts \<noteq> [] \<Longrightarrow>
     length (joined sep ts) = sum_list (map length ts) + (length ts - 1) * length sep"
  by (cases ts) (simp_all add: length_concat_sep)

lemma joined_take_length:
  assumes "0 < i" and "i \<le> length ts"
  shows "length (joined sep (take i ts)) \<le> length (joined sep ts)"
proof -
  obtain t us where ts: "ts = t # us"
    using assms by (cases ts) auto
  obtain j where i: "i = Suc j"
    using assms by (cases i) auto
  have "us = take j us @ drop j us" by simp
  then have "concat (map (\<lambda>u. sep @ u) us) =
      concat (map (\<lambda>u. sep @ u) (take j us)) @ concat (map (\<lambda>u. sep @ u) (drop j us))"
    by (metis concat_append map_append)
  then show ?thesis
    by (simp add: ts i)
qed

lemma joined_NUL:
  "NUL \<notin> set sep \<Longrightarrow> (\<forall>t\<in>set ts. NUL \<notin> set t) \<Longrightarrow> NUL \<notin> set (joined sep ts)"
  by (cases ts) auto

lemma strcpy_cases:
  assumes m: "mem st b = Some (Bytes bs)" and c: "cstring st src = Some s"
  shows "strcpy st (Ptr b 0) src =
     (if Suc (length s) \<le> length bs
      then Inr (Ptr b 0, st\<lparr>mem := (mem st)(b \<mapsto> Bytes (s @ NUL # drop (Suc (length s)) bs))\<rparr>)
      else Inl Fault)"
  using m c by (simp add: strcpy_def write_bytes_def)

lemma strcat_cases:
  assumes m: "mem st b = Some (Bytes bs)" and d: "cstring st (Ptr b 0) = Some d"
    and c: "cstring st src = Some s"
  shows "strcat st (Ptr b 0) src =
     (if Suc (length d + length s) \<le> length bs
      then Inr (Ptr b 0, st\<lparr>mem := (mem st)
             (b \<mapsto> Bytes (d @ s @ NUL # drop (Suc (length d + length s)) bs))\<rparr>)
      else Inl Fault)"
proof -
  from cstring_elim [OF d] m obtain rest where bs: "bs = d @ NUL # rest"
    by auto
  then have "take (length d) bs = d"
    by simp
  with m d c show ?thesis
    by (simp add: strcat_def write_bytes_def ptr_add_def)
qed

lemma cstring_at_0:
  assumes "mem st b = Some (Bytes (t @ NUL # rest))" and "NUL \<notin> set t"
  shows "cstring st (Ptr b 0) = Some t"
  using cstring_intro [of st b "[]" t rest 0] assms by simp

lemma tostring_len_sum:
  assumes el: "elements st a = Some xs" and ts: "texts st xs = Some ts"
  shows "unat i \<le> unat (count a) \<Longrightarrow>
     tostring_len st a i len = Inr (len + of_nat (sum_list (map length (drop (unat i) ts))))"
proof (induction "unat (count a) - unat i" arbitrary: i len)
  case 0
  then have "\<not> i < count a" "unat i = length ts"
    using elements_length [OF el] texts_length [OF ts] by (simp_all add: word_less_nat_alt)
  then show ?case
    by (subst tostring_len.simps) simp
next
  case (Suc n)
  then have lt: "unat i < unat (count a)" by linarith
  then have ic: "i < count a" by (simp add: word_less_nat_alt)
  have len: "length xs = unat (count a)" "length ts = length xs"
    using elements_length [OF el] texts_length [OF ts] by simp_all
  have c32: "unat (count a) < 2 ^ 32"
    using unsigned_less [of "count a"] by simp
  have u1: "unat (i + 1) = Suc (unat i)"
    using lt c32 by (rule unat_plus_1)
  have ld: "load_slot st (str a) (unat i) = Inr (xs ! unat i)"
    using el lt len by (intro elements_load_slot) simp_all
  have sl: "strlen st (xs ! unat i) = Inr (length (ts ! unat i))"
    using texts_Some [OF ts] lt len by (simp add: strlen_def)
  have "tostring_len st a (i + 1) (len + of_nat (length (ts ! unat i))) =
      Inr (len + of_nat (length (ts ! unat i)) +
           of_nat (sum_list (map length (drop (unat (i + 1)) ts))))"
    using Suc.hyps(2) lt u1 by (intro Suc.hyps(1)) simp_all
  moreover have "drop (unat i) ts = ts ! unat i # drop (Suc (unat i)) ts"
    using lt len by (simp add: Cons_nth_drop_Suc)
  ultimately show ?case
    using ic ld sl u1 by (subst tostring_len.simps) simp
qed

lemma tostring_cat_correct:
  assumes sep: "cstring st sep = Some sv" and nsep: "\<not> in_block b sep"
    and el: "elements st a = Some xs" and nel: "\<not> in_block b (str a)"
    and ts: "texts st xs = Some ts" and nxs: "\<forall>p\<in>set xs. \<not> in_block b p"
  shows "mem st b = Some (Bytes bs) \<Longrightarrow>
     cstring st (Ptr b 0) = Some (joined sv (take (unat i) ts)) \<Longrightarrow>
     0 < unat i \<Longrightarrow> unat i \<le> unat (count a) \<Longrightarrow>
     (\<forall>st'. tostring_cat st a (Ptr b 0) sep i = Inr st' \<longrightarrow>
        cstring st' (Ptr b 0) = Some (joined sv ts) \<and>
        (\<exists>bs'. st' = st\<lparr>mem := (mem st)(b \<mapsto> Bytes bs')\<rparr>)) \<and>
     (length (joined sv ts) < length bs \<longrightarrow>
        (\<exists>st'. tostring_cat st a (Ptr b 0) sep i = Inr st'))"
  using sep el ts
proof (induction "unat (count a) - unat i" arbitrary: i st bs)
  case 0
  have len: "length xs = unat (count a)" "length ts = length xs"
    using elements_length [OF 0(7)] texts_length [OF 0(8)] by simp_all
  from 0 have "\<not> i < count a" "unat i = length ts"
    using len by (simp_all add: word_less_nat_alt)
  moreover have "st = st\<lparr>mem := (mem st)(b \<mapsto> Bytes bs)\<rparr>"
    using 0(2) by (simp add: fun_upd_idem)
  ultimately show ?case
    using 0(3) by (subst (1 2) tostring_cat.simps) auto
next
  case (Suc n)
  note sep = Suc(7) and el = Suc(8) and ts = Suc(9)
  have len: "length xs = unat (count a)" "length ts = length xs"
    using elements_length [OF el] texts_length [OF ts] by simp_all
  define k where "k = unat i"
  from Suc have lt: "k < unat (count a)" and k0: "0 < k" by (simp_all add: k_def)
  then have ic: "i < count a" by (simp add: word_less_nat_alt k_def)
  have c32: "unat (count a) < 2 ^ 32"
    using unsigned_less [of "count a"] by simp
  have u1: "unat (i + 1) = Suc k"
    unfolding k_def using lt [unfolded k_def] c32 by (rule unat_plus_1)
  define d where "d = joined sv (take k ts)"
  have cur: "cstring st (Ptr b 0) = Some d"
    using Suc(4) by (simp add: d_def k_def)
  have m: "mem st b = Some (Bytes bs)" by fact
  have tk: "cstring st (xs ! k) = Some (ts ! k)"
    using texts_Some [OF ts] lt len by simp
  have jk: "joined sv (take (Suc k) ts) = d @ sv @ ts ! k"
    unfolding d_def using k0 lt len by (intro joined_take_Suc) simp_all
  have jl: "length d + length sv + length (ts ! k) \<le> length (joined sv ts)"
    using joined_take_length [of "Suc k" ts sv] lt len jk by simp
  have nn: "NUL \<notin> set d" "NUL \<notin> set sv" "NUL \<notin> set (ts ! k)"
    using cstring_no_NUL [OF cur] cstring_no_NUL [OF sep] cstring_no_NUL [OF tk] by simp_all
  show ?case
  proof (cases "Suc (length d + length sv) \<le> length bs")
    case False
    then have "strcat st (Ptr b 0) sep = Inl Fault"
      using strcat_cases [OF m cur sep] by simp
    then have "tostring_cat st a (Ptr b 0) sep i = Inl Fault"
      using ic by (subst tostring_cat.simps) simp
    then show ?thesis
      using False jl by simp
  next
    case True
    define bs1 where "bs1 = d @ sv @ NUL # drop (Suc (length d + length sv)) bs"
    define st1 where "st1 = st\<lparr>mem := (mem st)(b \<mapsto> Bytes bs1)\<rparr>"
    have c1: "strcat st (Ptr b 0) sep = Inr (Ptr b 0, st1)"
      using strcat_cases [OF m cur sep] True by (simp add: st1_def bs1_def)
    have l1: "length bs1 = length bs"
      using True by (simp add: bs1_def)
    have m1: "mem st1 b = Some (Bytes bs1)"
      by (simp add: st1_def)
    have o1: "\<And>c. c \<noteq> b \<Longrightarrow> mem st1 c = mem st c"
      by (simp add: st1_def)
    have "mem st1 b = Some (Bytes ((d @ sv) @ NUL # drop (Suc (length d + length sv)) bs))"
      by (simp add: st1_def bs1_def)
    then have cur1: "cstring st1 (Ptr b 0) = Some (d @ sv)"
      using nn by (intro cstring_at_0) simp_all
    have el1: "elements st1 a = Some xs"
    proof -
      have "elements st1 a = elements st a"
        using nel by (intro elements_same_block o1) (simp add: in_block_def)
      with el show ?thesis by simp
    qed
    have ld: "load_slot st1 (str a) k = Inr (xs ! k)"
      using el1 lt len by (intro elements_load_slot) simp_all
    have xk: "\<not> in_block b (xs ! k)"
      using nxs lt len by simp
    have tk1: "cstring st1 (xs ! k) = Some (ts ! k)"
      using cstring_other_block [of b st1 st "xs ! k", OF o1 xk] tk by simp
    show ?thesis
    proof (cases "Suc (length (d @ sv) + length (ts ! k)) \<le> length bs1")
      case False
      then have "strcat st1 (Ptr b 0) (xs ! k) = Inl Fault"
        using strcat_cases [OF m1 cur1 tk1] by simp
      then have "tostring_cat st a (Ptr b 0) sep i = Inl Fault"
        using ic c1 ld by (subst tostring_cat.simps) (simp add: k_def)
      then show ?thesis
        using False jl l1 by simp
    next
      case fits: True
      define bs2 where "bs2 = (d @ sv) @ ts ! k @ NUL #
          drop (Suc (length (d @ sv) + length (ts ! k))) bs1"
      define st2 where "st2 = st\<lparr>mem := (mem st)(b \<mapsto> Bytes bs2)\<rparr>"
      have st2: "st1\<lparr>mem := (mem st1)(b \<mapsto> Bytes bs2)\<rparr> = st2"
        by (simp add: st1_def st2_def)
      have c2: "strcat st1 (Ptr b 0) (xs ! k) = Inr (Ptr b 0, st2)"
        using strcat_cases [OF m1 cur1 tk1] fits st2 by (simp add: bs2_def)
      have l2: "length bs2 = length bs"
        using fits l1 by (simp add: bs2_def)
      have m2: "mem st2 b = Some (Bytes bs2)"
        by (simp add: st2_def)
      have o2: "\<And>c. c \<noteq> b \<Longrightarrow> mem st2 c = mem st c"
        by (simp add: st2_def)
      have "mem st2 b = Some (Bytes ((d @ sv @ ts ! k) @ NUL #
          drop (Suc (length (d @ sv) + length (ts ! k))) bs1))"
        by (simp add: st2_def bs2_def)
      then have "cstring st2 (Ptr b 0) = Some (d @ sv @ ts ! k)"
        using nn by (intro cstring_at_0) simp_all
      then have cur2: "cstring st2 (Ptr b 0) = Some (joined sv (take (unat (i + 1)) ts))"
        by (simp add: u1 jk)
      have sep2: "cstring st2 sep = Some sv"
        using cstring_other_block [of b st2 st sep, OF o2 nsep] sep by simp
      have el2: "elements st2 a = Some xs"
      proof -
        have "elements st2 a = elements st a"
          using nel by (intro elements_same_block o2) (simp add: in_block_def)
        with el show ?thesis by simp
      qed
      have ts2: "texts st2 xs = Some ts"
      proof -
        have "texts st2 xs = texts st xs"
        proof (rule texts_pointwise)
          fix q assume "q \<in> set xs"
          with nxs have "\<not> in_block b q" by blast
          with o2 show "cstring st2 q = cstring st q" by (rule cstring_other_block)
        qed
        with ts show ?thesis by simp
      qed
      have n: "n = unat (count a) - unat (i + 1)"
        using Suc(2) u1 by (simp add: k_def)
      have b1: "0 < unat (i + 1)" "unat (i + 1) \<le> unat (count a)"
        using u1 lt by simp_all
      note IH = Suc(1) [OF n m2 cur2 b1 sep2 el2 ts2]
      have step: "tostring_cat st a (Ptr b 0) sep i = tostring_cat st2 a (Ptr b 0) sep (i + 1)"
        using ic c1 ld c2 by (subst tostring_cat.simps) (simp add: k_def)
      have upd: "\<And>bs'. st2\<lparr>mem := (mem st2)(b \<mapsto> Bytes bs')\<rparr> = st\<lparr>mem := (mem st)(b \<mapsto> Bytes bs')\<rparr>"
        by (simp add: st2_def)
      from IH show ?thesis
        unfolding step l2 upd by blast
    qed
  qed
qed

lemma fresh_cstring:
  "mem st b = None \<Longrightarrow> cstring st p = Some t \<Longrightarrow> \<not> in_block b p"
  using cstring_live [of st p t] by (auto simp: in_block_def)

lemma fresh_elements:
  "mem st b = None \<Longrightarrow> elements st a = Some xs \<Longrightarrow> \<not> in_block b (str a)"
  using elements_live [of st a xs] by (fastforce simp: in_block_def split: ptr.splits)

lemma fresh_texts:
  assumes f: "mem st b = None" and ts: "texts st xs = Some ts"
  shows "\<forall>p\<in>set xs. \<not> in_block b p"
proof
  fix p assume "p \<in> set xs"
  then obtain j where "j < length xs" "p = xs ! j"
    by (auto simp: in_set_conv_nth)
  with texts_Some [OF ts] have "cstring st p = Some (ts ! j)"
    by simp
  with f show "\<not> in_block b p"
    by (rule fresh_cstring)
qed

lemma frame_strings:
  assumes o: "\<And>c. c \<noteq> b \<Longrightarrow> mem st' c = mem st c"
  shows "\<not> in_block b p \<Longrightarrow> cstring st' p = cstring st p"
    and "\<not> in_block b (str a) \<Longrightarrow> elements st' a = elements st a"
    and "\<forall>p\<in>set xs. \<not> in_block b p \<Longrightarrow> texts st' xs = texts st xs"
proof -
  show "cstring st' p = cstring st p" if "\<not> in_block b p"
    using o that by (rule cstring_other_block)
  show "elements st' a = elements st a" if "\<not> in_block b (str a)"
    using that by (intro elements_same_block o) (simp add: in_block_def)
  show "texts st' xs = texts st xs" if n: "\<forall>p\<in>set xs. \<not> in_block b p"
  proof (rule texts_pointwise)
    fix q assume "q \<in> set xs"
    with n have "\<not> in_block b q" by blast
    with o show "cstring st' q = cstring st q" by (rule cstring_other_block)
  qed
qed

lemma xmalloc_cases:
  "xmalloc st n =
     (if (if n \<noteq> 0 then n else 1) \<le> avail st
      then Inr (Ptr (nxt st) 0,
             st\<lparr>mem := (mem st)(nxt st \<mapsto> Bytes (replicate (if n \<noteq> 0 then n else 1) fill)),
                nxt := Suc (nxt st), avail := avail st - (if n \<noteq> 0 then n else 1)\<rparr>)
      else Inl Exit1)"
  by (simp add: xmalloc_def malloc_def alloc_def)

lemma tostring_total:
  assumes n: "ts \<noteq> []" and c: "length ts = unat (cnt :: 32 word)"
    and small: "length (joined sv ts) < 2 ^ 32 - 1"
  shows "unat (1 + (cnt - 1) * of_nat (length sv) + of_nat (sum_list (map length ts)) :: 32 word)
     = Suc (length (joined sv ts))"
proof -
  have "1 \<le> unat cnt" using n c by (cases ts) auto
  then have "cnt - 1 = of_nat (unat cnt - 1)"
    by (simp add: of_nat_diff)
  then have "1 + (cnt - 1) * of_nat (length sv) + of_nat (sum_list (map length ts)) =
      (of_nat (Suc ((length ts - 1) * length sv + sum_list (map length ts))) :: 32 word)"
    by (simp add: c)
  moreover have "Suc ((length ts - 1) * length sv + sum_list (map length ts)) =
      Suc (length (joined sv ts))"
    using joined_length [OF n, of sv] by simp
  ultimately show ?thesis
    using small by (simp add: unat_of_nat del: of_nat_Suc)
qed

lemma strarray_tostring_empty:
  assumes ok: "heap_ok st" and sep: "cstring st sep = Some sv"
    and lit: "cstring st lit_empty = Some []" and c: "count a = 0"
  shows "strarray_tostring st a sep =
     (if Suc 0 \<le> avail st
      then Inr (Ptr (nxt st) 0,
             st\<lparr>mem := (mem st)(nxt st \<mapsto> Bytes [NUL]), nxt := Suc (nxt st),
                avail := avail st - Suc 0\<rparr>)
      else Inl Exit1)"
  using xstrdup_cases [OF ok lit] sep c by (simp add: strarray_tostring_def strlen_def)

lemma strarray_tostring_nonempty:
  assumes ok: "heap_ok st" and el: "elements st a = Some xs" and ts: "texts st xs = Some ts"
    and sep: "cstring st sep = Some sv" and c: "count a \<noteq> 0"
  shows "(\<forall>res st'. strarray_tostring st a sep = Inr (res, st') \<longrightarrow>
            res = Ptr (nxt st) 0 \<and> cstring st' res = Some (joined sv ts) \<and>
            (\<forall>c. c \<noteq> nxt st \<longrightarrow> mem st' c = mem st c) \<and> vars st' = vars st) \<and>
         (length (joined sv ts) < 2 ^ 32 - 1 \<and> Suc (length (joined sv ts)) \<le> avail st \<longrightarrow>
            (\<exists>res st'. strarray_tostring st a sep = Inr (res, st')))"
proof -
  have len: "length xs = unat (count a)" "length ts = length xs"
    using elements_length [OF el] texts_length [OF ts] by simp_all
  have pos: "0 < unat (count a)"
    using c by (simp add: unat_gt_0)
  then have ne: "ts \<noteq> []" using len by auto
  define len' :: "32 word" where
    "len' = 1 + (count a - 1) * of_nat (length sv) + of_nat (sum_list (map length ts))"
  have tl: "tostring_len st a 0 (1 + (count a - 1) * of_nat (length sv)) = Inr len'"
    using tostring_len_sum [OF el ts, of 0] by (simp add: len'_def)
  define m where "m = (if unat len' \<noteq> 0 then unat len' else 1)"
  define b where "b = nxt st"
  define st1 where "st1 = st\<lparr>mem := (mem st)(b \<mapsto> Bytes (replicate m fill)),
      nxt := Suc (nxt st), avail := avail st - m\<rparr>"
  have xm: "xmalloc st (unat len') =
      (if m \<le> avail st then Inr (Ptr b 0, st1) else Inl Exit1)"
    unfolding xmalloc_cases m_def st1_def b_def by simp
  have unf: "strarray_tostring st a sep =
      (case xmalloc st (unat len') of Inl e \<Rightarrow> Inl e
       | Inr (res, st1) \<Rightarrow>
           (case load_slot st1 (str a) 0 of Inl e \<Rightarrow> Inl e
            | Inr p \<Rightarrow>
                (case strcpy st1 res p of Inl e \<Rightarrow> Inl e
                 | Inr (r, st2) \<Rightarrow>
                     (case tostring_cat st2 a res sep 1 of Inl e \<Rightarrow> Inl e
                      | Inr st3 \<Rightarrow> Inr (res, st3)))))"
    using sep c tl by (simp add: strarray_tostring_def strlen_def Let_def)
  have total: "m = Suc (length (joined sv ts))" if "length (joined sv ts) < 2 ^ 32 - 1"
    using tostring_total [OF ne _ that, of "count a"] len by (simp add: m_def len'_def)
  show ?thesis
  proof (cases "m \<le> avail st")
    case False
    then have "strarray_tostring st a sep = Inl Exit1"
      by (simp add: unf xm)
    then show ?thesis
      using False total by auto
  next
    case True
    have fresh: "mem st b = None"
      unfolding b_def using ok by (rule heap_ok_fresh)
    have nsep: "\<not> in_block b sep" using fresh sep by (rule fresh_cstring)
    have nel: "\<not> in_block b (str a)" using fresh el by (rule fresh_elements)
    have nxs: "\<forall>p\<in>set xs. \<not> in_block b p" using fresh ts by (rule fresh_texts)
    have o1: "\<And>c. c \<noteq> b \<Longrightarrow> mem st1 c = mem st c"
      by (simp add: st1_def)
    have m1: "mem st1 b = Some (Bytes (replicate m fill))"
      by (simp add: st1_def)
    have el1: "elements st1 a = Some xs"
      using frame_strings(2) [of b st1 st a, OF o1 nel] el by simp
    have ts1: "texts st1 xs = Some ts"
      using frame_strings(3) [of b st1 st xs, OF o1 nxs] ts by simp
    have ld: "load_slot st1 (str a) 0 = Inr (xs ! 0)"
      using el1 pos len by (intro elements_load_slot) simp_all
    have t0: "cstring st1 (xs ! 0) = Some (ts ! 0)"
      using texts_Some [OF ts1] pos len by simp
    have j0: "joined sv (take (unat (1 :: 32 word)) ts) = ts ! 0"
      using ne by (cases ts) simp_all
    have l0: "length (ts ! 0) \<le> length (joined sv ts)"
      using ne by (cases ts) simp_all
    show ?thesis
    proof (cases "Suc (length (ts ! 0)) \<le> m")
      case False
      then have "strcpy st1 (Ptr b 0) (xs ! 0) = Inl Fault"
        using strcpy_cases [OF m1 t0] by simp
      then have "strarray_tostring st a sep = Inl Fault"
        using True by (simp add: unf xm ld)
      then show ?thesis
        using False total l0 by auto
    next
      case fits: True
      define bs2 where "bs2 = ts ! 0 @ NUL # drop (Suc (length (ts ! 0))) (replicate m fill)"
      define st2 where "st2 = st1\<lparr>mem := (mem st1)(b \<mapsto> Bytes bs2)\<rparr>"
      have cp: "strcpy st1 (Ptr b 0) (xs ! 0) = Inr (Ptr b 0, st2)"
        using strcpy_cases [OF m1 t0] fits by (simp add: st2_def bs2_def)
      have l2: "length bs2 = m"
        using fits by (simp add: bs2_def)
      have m2: "mem st2 b = Some (Bytes bs2)"
        by (simp add: st2_def)
      have o2: "\<And>c. c \<noteq> b \<Longrightarrow> mem st2 c = mem st c"
        by (simp add: st2_def st1_def)
      have "cstring st2 (Ptr b 0) = Some (ts ! 0)"
        using m2 [unfolded bs2_def] cstring_no_NUL [OF t0] by (rule cstring_at_0)
      then have cur2: "cstring st2 (Ptr b 0) = Some (joined sv (take (unat (1 :: 32 word)) ts))"
        by (simp only: j0)
      have sep2: "cstring st2 sep = Some sv"
        using frame_strings(1) [of b st2 st sep, OF o2 nsep] sep by simp
      have el2: "elements st2 a = Some xs"
        using frame_strings(2) [of b st2 st a, OF o2 nel] el by simp
      have ts2: "texts st2 xs = Some ts"
        using frame_strings(3) [of b st2 st xs, OF o2 nxs] ts by simp
      have b1: "0 < unat (1 :: 32 word)" "unat (1 :: 32 word) \<le> unat (count a)"
        using pos by simp_all
      note cat = tostring_cat_correct [OF sep2 nsep el2 nel ts2 nxs m2 cur2 b1]
      have unf2: "strarray_tostring st a sep =
          (case tostring_cat st2 a (Ptr b 0) sep 1 of Inl e \<Rightarrow> Inl e
           | Inr st3 \<Rightarrow> Inr (Ptr b 0, st3))"
        using True by (simp add: unf xm ld cp)
      have post: "res = Ptr (nxt st) 0 \<and> cstring st' res = Some (joined sv ts) \<and>
            (\<forall>c. c \<noteq> nxt st \<longrightarrow> mem st' c = mem st c) \<and> vars st' = vars st"
        if r: "strarray_tostring st a sep = Inr (res, st')" for res st'
      proof -
        from r have rs: "res = Ptr b 0" and c3: "tostring_cat st2 a (Ptr b 0) sep 1 = Inr st'"
          by (auto simp: unf2 split: sum.splits)
        from cat c3 obtain bs' where "cstring st' (Ptr b 0) = Some (joined sv ts)"
          "st' = st2\<lparr>mem := (mem st2)(b \<mapsto> Bytes bs')\<rparr>"
          by blast
        then show ?thesis
          using rs by (simp add: b_def st2_def st1_def)
      qed
      have prog: "\<exists>res st'. strarray_tostring st a sep = Inr (res, st')"
        if "length (joined sv ts) < 2 ^ 32 - 1"
      proof -
        from total [OF that] l2 have "length (joined sv ts) < length bs2" by simp
        with cat obtain st3 where "tostring_cat st2 a (Ptr b 0) sep 1 = Inr st3"
          by blast
        then show ?thesis by (simp add: unf2)
      qed
      from post prog show ?thesis by blast
    qed
  qed
qed

lemma ex_join_facts:
  "heap_ok ex_join"
  "elements ex_join \<lparr>count = 2, size_sa = 16, str = Ptr 5 0\<rparr> = Some [Ptr 2 0, Ptr 3 0]"
  "texts ex_join [Ptr 2 0, Ptr 3 0] = Some [''a'', ''b'']"
  "cstring ex_join (Ptr 4 0) = Some ''/''"
  "cstring ex_join lit_empty = Some []"
  by (simp_all add: heap_ok_def ex_join_def elements_def buffer_def cstring_def lit_empty_def)

lemma strarray_tostring_empty_example:
  "\<exists>res st'. strarray_tostring ex_join empty_strarray (Ptr 4 0) = Inr (res, st') \<and>
     res \<noteq> Null \<and> res \<noteq> lit_empty \<and> cstring st' res = Some [] \<and>
     cstring ex_join res = None"
  using strarray_tostring_empty [OF ex_join_facts(1,4,5), of empty_strarray]
  by (simp add: empty_strarray_def ex_join_def lit_empty_def cstring_def)

lemma texts_defined: "texts st xs \<noteq> None \<longleftrightarrow> (\<forall>p\<in>set xs. cstring st p \<noteq> None)"
  by (induction xs) (auto split: option.splits)

lemma strarray_add_uniq_source:
  assumes ok: "heap_ok st" and v: "vars st array = Some a"
    and el: "elements st a = Some xs" and ts: "texts st xs = Some ts"
    and s: "cstring st s = Some t" and add: "strarray_add_uniq st array s = Inr st'"
    and src: "elements st added = Some ys" and us: "texts st ys \<noteq> None"
  shows "(\<exists>ys'. elements st' added = Some ys' \<and> texts st' ys' \<noteq> None) \<or>
         (\<exists>b off. str added = Ptr b off \<and> mem st' b = None)"
proof (cases "t \<in> set ts")
  case True
  with strarray_exists_correct [OF v el ts s] add have "st' = st"
    by (simp add: strarray_add_uniq_def)
  with src us show ?thesis by blast
next
  case False
  with strarray_exists_correct [OF v el ts s] add have a: "strarray_add st array s = Inr st'"
    by (simp add: strarray_add_uniq_def)
  have ex: "extends array st st'"
    using ok v el a by (rule strarray_add_extends)
  have cs: "\<And>p. cstring st' p = cstring st p"
    using ex by (rule extends_cstring)
  have us': "texts st' ys \<noteq> None"
    using us extends_texts [OF ex, of ys] by simp
  from elements_buffer [OF src] obtain ps where
    ps: "buffer st added = Some ps" "unat (count added) \<le> length ps"
      "ys = take (unat (count added)) ps"
    by blast
  from buffer_cases [OF ps(1)] show ?thesis
  proof (elim disjE conjE exE)
    assume "str added = Null"
    then have "elements st' added = elements st added"
      by (intro elements_same_block) simp
    with src us' show ?thesis by auto
  next
    fix b assume b: "str added = Ptr b 0" "mem st b = Some (Slots ps)"
      "length ps = unat (size_sa added)"
    have blt: "b < nxt st"
      using ok b(2) by (rule live_below_nxt)
    show ?thesis
    proof (cases "str a = Ptr b 0")
      case False
      with ex v blt have "mem st' b = mem st b"
        by (auto simp: extends_def split: option.splits)
      then have "elements st' added = elements st added"
        using b(1) by (intro elements_same_block) simp
      with src us' show ?thesis by auto
    next
      case same: True
      show ?thesis
      proof (cases "count a = size_sa a")
        case True
        from strarray_add_resize [OF ok v True el a] same have
          "mem st' = ((mem st)(b := None))(nxt st \<mapsto>
             Slots (xs @ [s] @ replicate (unat (if size_sa a = 0 then 16 else size_sa a * 2)
               - unat (size_sa a) - 1) Null))"
          by auto
        then have "mem st' b = None"
          using blt by simp
        with b(1) show ?thesis by blast
      next
        case False
        from strarray_add_noresize [OF v False el a] same b(2) have
          m': "mem st' = (mem st)(b \<mapsto> Slots (ps[unat (count a) := s]))"
          by auto
        define ys' where "ys' = take (unat (count added)) (ps[unat (count a) := s])"
        have "buffer st' added = Some (ps[unat (count a) := s])"
          using b by (simp add: buffer_def m')
        then have e': "elements st' added = Some ys'"
          using ps(2) by (simp add: elements_def ys'_def)
        have "set ys' \<subseteq> insert s (set ys)"
          unfolding ys'_def ps(3) take_update_swap by (rule set_update_subset_insert)
        moreover have "\<forall>p\<in>set ys. cstring st p \<noteq> None"
          using us texts_defined [of st ys] by blast
        ultimately have "\<forall>p\<in>set ys'. cstring st' p \<noteq> None"
          using s cs by auto
        then have "texts st' ys' \<noteq> None"
          using texts_defined [of st' ys'] by blast
        with e' show ?thesis by blast
      qed
    qed
  qed
qed

lemma addall_uniq_loop_any_source:
  "heap_ok st \<Longrightarrow> vars st array = Some a \<Longrightarrow> elements st a = Some xs \<Longrightarrow>
    texts st xs = Some ts \<Longrightarrow> distinct ts \<Longrightarrow>
    (\<exists>ys. elements st added = Some ys \<and> texts st ys \<noteq> None) \<or>
    (\<exists>b off. str added = Ptr b off \<and> mem st b = None) \<Longrightarrow>
    addall_uniq_loop st array added i = Inr st' \<Longrightarrow>
    \<exists>a' xs' ts'. vars st' array = Some a' \<and> elements st' a' = Some xs' \<and>
       texts st' xs' = Some ts' \<and> distinct ts'"
proof (induction "unat (count added) - unat i" arbitrary: st a xs ts i)
  case 0
  then have "\<not> i < count added"
    by (simp add: word_less_nat_alt)
  with "0.prems"(7) have "st' = st"
    by (subst (asm) addall_uniq_loop.simps) simp
  with "0.prems" show ?case by blast
next
  case (Suc n)
  then have lt: "unat i < unat (count added)" by simp
  then have ilt: "i < count added"
    by (simp add: word_less_nat_alt)
  have u: "unat (i + 1) = Suc (unat i)"
    using lt unat_plus_1 [of i "unat (count added)"] unsigned_less [of "count added"]
    by simp
  from Suc.prems(6) show ?case
  proof (elim disjE exE conjE)
    fix b off assume "str added = Ptr b off" "mem st b = None"
    then have "load_slot st (str added) (unat i) = Inl Fault"
      by (simp add: load_slot_def)
    with Suc.prems(7) ilt show ?thesis
      by (subst (asm) addall_uniq_loop.simps) simp
  next
    fix ys assume ys: "elements st added = Some ys" "texts st ys \<noteq> None"
    have len: "length ys = unat (count added)"
      using ys(1) by (rule elements_length)
    have ld: "load_slot st (str added) (unat i) = Inr (ys ! unat i)"
      using ys(1) lt len by (intro elements_load_slot) simp_all
    have "ys ! unat i \<in> set ys"
      using lt len by simp
    with ys(2) texts_defined [of st ys] obtain t where c: "cstring st (ys ! unat i) = Some t"
      by blast
    from Suc.prems(7) ilt ld obtain st1 where
      s1: "strarray_add_uniq st array (ys ! unat i) = Inr st1"
      and r: "addall_uniq_loop st1 array added (i + 1) = Inr st'"
      by (subst (asm) addall_uniq_loop.simps) (auto split: sum.splits)
    from strarray_add_uniq_step [OF Suc.prems(1-5) c s1] obtain a1 xs1 ts1 where
      ex1: "extends array st st1"
      and a1: "vars st1 array = Some a1" "elements st1 a1 = Some xs1" "texts st1 xs1 = Some ts1"
        "distinct ts1"
      by blast
    have ok1: "heap_ok st1" using ex1 by (simp add: extends_def)
    note src1 = strarray_add_uniq_source [OF Suc.prems(1-4) c s1 ys]
    have "n = unat (count added) - unat (i + 1)"
      using Suc.hyps(2) u by simp
    from Suc.hyps(1) [OF this ok1 a1 src1 r] show ?thesis .
  qed
qed

lemma strarray_addall_uniq_any_source:
  assumes ok: "heap_ok st" and v: "vars st array = Some a" and el: "elements st a = Some xs"
    and ts: "texts st xs = Some ts" and d: "distinct ts"
    and ys: "elements st added = Some ys" and us: "texts st ys \<noteq> None"
    and run: "strarray_addall_uniq st array added = Inr st'"
  shows "\<exists>ts'. array_texts st' array = Some ts' \<and> distinct ts'"
proof -
  have "(\<exists>ys. elements st added = Some ys \<and> texts st ys \<noteq> None) \<or>
    (\<exists>b off. str added = Ptr b off \<and> mem st b = None)"
    using ys us by blast
  from addall_uniq_loop_any_source [OF ok v el ts d this, of 0 st'] run show ?thesis
    by (auto simp: strarray_addall_uniq_def array_texts_Some)
qed





















lemma strarray_add_post:
  assumes ok: "heap_ok st" and v: "vars st array = Some a"
    and el: "elements st a = Some xs" and ts: "texts st xs = Some ts"
    and s: "cstring st s = Some t" and add: "strarray_add st array s = Inr st'"
  shows "\<exists>a'. vars st' array = Some a' \<and> unat (count a') = unat (count a) + 1 \<and>
           elements st' a' = Some (xs @ [s]) \<and> texts st' (xs @ [s]) = Some (ts @ [t]) \<and>
           strarray_exists st' array s = Inr 1"
proof -
  from strarray_add_effect [OF ok v el add] obtain a' where
    v': "vars st' = (vars st)(array \<mapsto> a')" and c: "unat (count a') = Suc (unat (count a))"
    and el': "elements st' a' = Some (xs @ [s])"
    and sb: "\<forall>b bs. mem st' b = Some (Bytes bs) \<longleftrightarrow> mem st b = Some (Bytes bs)"
    by blast
  have cs: "\<And>p. cstring st' p = cstring st p"
    using sb by (rule cstring_same_bytes)
  have ts': "texts st' (xs @ [s]) = Some (ts @ [t])"
    using ts s by (simp add: texts_append texts_cong [of st' st, OF cs] cs)
  have "strarray_exists st' array s = Inr 1"
    using exists_loop_correct [OF el' ts', of s t 0] s cs v'
    by (simp add: strarray_exists_def)
  with v' c el' ts' show ?thesis by simp
qed



section \<open>Claims\<close>

text \<open>
  C1. \<^verbatim>\<open>strarray_add(array, s)\<close> returns whenever the array has a free slot, or has
  fewer than \<open>2 ^ 31\<close> slots and the allocator has the bytes of the doubled buffer (of
  16 slots for an array without buffer). After it has returned,
  \<^verbatim>\<open>strarray_exists(array, s)\<close> returns 1, \<open>count\<close> is larger by exactly 1, \<open>s\<close> is
  the last element, and the elements stored before are the same pointers at the same
  positions, holding the same texts.
\<close>

theorem strarray_add_contains:
  assumes ok: "heap_ok st" and v: "vars st array = Some a"
    and el: "elements st a = Some xs" and ts: "texts st xs = Some ts"
    and s: "cstring st s = Some t"
  shows "(\<forall>st'. strarray_add st array s = Inr st' \<longrightarrow>
            (\<exists>a'. vars st' array = Some a' \<and> unat (count a') = unat (count a) + 1 \<and>
               elements st' a' = Some (xs @ [s]) \<and> texts st' (xs @ [s]) = Some (ts @ [t]) \<and>
               strarray_exists st' array s = Inr 1)) \<and>
         (count a \<noteq> size_sa a \<or>
          (unat (size_sa a) < 2 ^ 31 \<and>
           8 * (if size_sa a = 0 then 16 else 2 * unat (size_sa a)) \<le> avail st) \<longrightarrow>
            (\<exists>st'. strarray_add st array s = Inr st'))"
proof (intro conjI allI impI)
  fix st' assume "strarray_add st array s = Inr st'"
  with ok v el ts s show "\<exists>a'. vars st' array = Some a' \<and>
      unat (count a') = unat (count a) + 1 \<and>
      elements st' a' = Some (xs @ [s]) \<and> texts st' (xs @ [s]) = Some (ts @ [t]) \<and>
      strarray_exists st' array s = Inr 1"
    by (rule strarray_add_post)
next
  assume r: "count a \<noteq> size_sa a \<or>
     (unat (size_sa a) < 2 ^ 31 \<and>
      8 * (if size_sa a = 0 then 16 else 2 * unat (size_sa a)) \<le> avail st)"
  have "count a \<noteq> size_sa a \<or>
     (unat (size_sa a) < 2 ^ 31 \<and>
      8 * unat (if size_sa a = 0 then 16 else size_sa a * 2 :: 32 word) \<le> avail st)"
  proof (cases "count a = size_sa a")
    case False
    then show ?thesis by simp
  next
    case True
    with r have lt: "unat (size_sa a) < 2 ^ 31"
      and b: "8 * (if size_sa a = 0 then 16 else 2 * unat (size_sa a)) \<le> avail st"
      by simp_all
    from grown_size [OF lt] b lt show ?thesis
      by (simp add: unat_eq_0)
  qed
  with ok v el show "\<exists>st'. strarray_add st array s = Inr st'"
    by (rule strarray_add_returns)
qed

theorem strarray_add_contains_witness:
  "\<exists>st'. strarray_add ex_empty 0 (Ptr 0 0) = Inr st' \<and>
     (\<exists>a'. vars st' 0 = Some a' \<and> unat (count a') = 1 \<and>
        elements st' a' = Some [Ptr 0 0] \<and> texts st' [Ptr 0 0] = Some [''a''] \<and>
        strarray_exists st' 0 (Ptr 0 0) = Inr 1)"
proof -
  note T = strarray_add_contains [OF ex_empty_facts(1-5)]
  have "count empty_strarray \<noteq> size_sa empty_strarray \<or>
     (unat (size_sa empty_strarray) < 2 ^ 31 \<and>
      8 * (if size_sa empty_strarray = 0 then 16 else 2 * unat (size_sa empty_strarray))
        \<le> avail ex_empty)"
    by (simp add: empty_strarray_def ex_empty_def)
  with T obtain st' where r: "strarray_add ex_empty 0 (Ptr 0 0) = Inr st'"
    by blast
  with T have "\<exists>a'. vars st' 0 = Some a' \<and>
      unat (count a') = unat (count empty_strarray) + 1 \<and>
      elements st' a' = Some ([] @ [Ptr 0 0]) \<and> texts st' ([] @ [Ptr 0 0]) = Some ([] @ [''a'']) \<and>
      strarray_exists st' 0 (Ptr 0 0) = Inr 1"
    by blast
  with r show ?thesis
    by (simp add: empty_strarray_def)
qed

text \<open>
  C2. Seventeen calls of \<^verbatim>\<open>strarray_add\<close> on an empty array (count 0, size 0, given
  384 bytes of memory for the two buffers) all return; the size is 16 after each of the
  first sixteen calls and 32 after the seventeenth, so it changes exactly twice, from 0
  to 16 and from 16 to 32; afterwards the array holds the seventeen strings at the
  indices 0 to 16 in the order of the calls.
\<close>

theorem strarray_add_17:
  assumes ok: "heap_ok st" and v: "vars st array = Some empty_strarray"
    and len: "length ss = 17" and av: "384 \<le> avail st"
  shows "\<exists>st' a'. strarray_add_seq st array ss = Inr (replicate 16 16 @ [32], st') \<and>
           vars st' array = Some a' \<and> count a' = 17 \<and> size_sa a' = 32 \<and>
           elements st' a' = Some ss \<and> (\<forall>i<17. load_slot st' (str a') i = Inr (ss ! i))"
proof -
  from len obtain s0 rest where ss: "ss = s0 # rest" and lr: "length rest = 16"
    by (cases ss) auto
  from lr obtain mid sl where rest: "rest = mid @ [sl]" and lm: "length mid = 15"
    by (cases rest rule: rev_cases) auto
  have e0: "elements st empty_strarray = Some []"
    by (simp add: elements_def buffer_def empty_strarray_def)
  have "\<exists>st1. strarray_add st array s0 = Inr st1"
    using av by (intro strarray_add_returns [OF ok v e0]) (simp add: empty_strarray_def)
  then obtain st1 where add1: "strarray_add st array s0 = Inr st1" ..
  from strarray_add_effect [OF ok v e0 add1] obtain a1 where
    a1: "vars st1 array = Some a1" "unat (count a1) = 1" "elements st1 a1 = Some [s0]"
      "size_sa a1 = 16" "heap_ok st1" "avail st1 + 128 = avail st"
    by (auto simp: empty_strarray_def)
  have "unat (count a1) + length mid \<le> unat (size_sa a1)"
    using a1 lm by simp
  from strarray_add_seq_noresize [OF a1(5) a1(1) a1(3) this] obtain st2 a2 where
    a2: "strarray_add_seq st1 array mid = Inr (replicate 15 16, st2)"
      "vars st2 array = Some a2" "elements st2 a2 = Some ([s0] @ mid)"
      "size_sa a2 = 16" "heap_ok st2" "avail st2 = avail st1"
    using lm a1(4) by auto
  have c2: "count a2 = size_sa a2"
    using elements_length [OF a2(3)] a2(4) lm by (simp add: word_unat_eq_iff)
  have "\<exists>st3. strarray_add st2 array sl = Inr st3"
    using av a1(6) a2(6) a2(4) by (intro strarray_add_returns [OF a2(5) a2(2) a2(3)]) simp
  then obtain st3 where add3: "strarray_add st2 array sl = Inr st3" ..
  from strarray_add_effect [OF a2(5) a2(2) a2(3) add3] c2 a2(4) obtain a3 where
    a3: "vars st3 array = Some a3" "unat (count a3) = 17" "elements st3 a3 = Some (([s0] @ mid) @ [sl])"
      "size_sa a3 = 32"
    using elements_length [OF a2(3)] lm by auto
  have tr: "strarray_add_seq st array ss = Inr (replicate 16 16 @ [32], st3)"
    using add1 a1(1,4) a2(1) add3 a3(1,4)
    by (simp add: ss rest strarray_add_seq_append numeral_eq_Suc)
  have el: "elements st3 a3 = Some ss"
    using a3(3) by (simp add: ss rest)
  have cnt: "count a3 = 17"
    using a3(2) by (simp add: word_unat_eq_iff)
  have "\<forall>i<17. load_slot st3 (str a3) i = Inr (ss ! i)"
    using elements_load_slot [OF el] len by simp
  with tr a3(1,4) el cnt show ?thesis by blast
qed

theorem strarray_add_17_witness:
  "\<exists>st' a'. strarray_add_seq ex_empty 0 (map (Ptr 0) [0..<17]) = Inr (replicate 16 16 @ [32], st') \<and>
     vars st' 0 = Some a' \<and> count a' = 17 \<and> size_sa a' = 32 \<and>
     elements st' a' = Some (map (Ptr 0) [0..<17])"
proof -
  have "length (map (Ptr 0) [0..<17]) = 17" "384 \<le> avail ex_empty"
    by (simp_all add: ex_empty_def)
  from strarray_add_17 [OF ex_empty_facts(1,2) this] show ?thesis
    by blast
qed

text \<open>
  C3, as the code has it. The second of two calls \<^verbatim>\<open>strarray_add_uniq(array, s)\<close>
  changes nothing. Together the two calls raise \<open>count\<close> by 1 when no element of the
  array has the text of \<open>s\<close>, and \<open>s\<close> is then the last element behind the old ones;
  when an element has that text already, \<open>count\<close> is not raised at all and the first
  call changes nothing either.
\<close>

theorem strarray_add_uniq_twice:
  assumes ok: "heap_ok st" and v: "vars st array = Some a"
    and el: "elements st a = Some xs" and ts: "texts st xs = Some ts"
    and s: "cstring st s = Some t" and add: "strarray_add_uniq st array s = Inr st'"
  shows "strarray_add_uniq st' array s = Inr st' \<and>
         (\<exists>a'. vars st' array = Some a' \<and>
            unat (count a') = unat (count a) + (if t \<in> set ts then 0 else 1) \<and>
            elements st' a' = Some (if t \<in> set ts then xs else xs @ [s])) \<and>
         (t \<in> set ts \<longrightarrow> st' = st)"
proof (cases "t \<in> set ts")
  case True
  with strarray_exists_correct [OF v el ts s] add have "st' = st"
    by (simp add: strarray_add_uniq_def)
  with True add v el show ?thesis by simp
next
  case False
  with strarray_exists_correct [OF v el ts s] add have "strarray_add st array s = Inr st'"
    by (simp add: strarray_add_uniq_def)
  from strarray_add_texts [OF ok v el ts s this] obtain a' where
    a': "vars st' array = Some a'" "unat (count a') = Suc (unat (count a))"
     "elements st' a' = Some (xs @ [s])" "texts st' (xs @ [s]) = Some (ts @ [t])"
     "cstring st' s = Some t"
    using s by auto
  have "strarray_exists st' array s = Inr 1"
    using strarray_exists_correct [OF a'(1,3,4,5)] by simp
  then have "strarray_add_uniq st' array s = Inr st'"
    by (simp add: strarray_add_uniq_def)
  with a' False show ?thesis by simp
qed

theorem strarray_add_uniq_twice_witness:
  "strarray_add_uniq ex_one 0 (Ptr 0 0) = Inr ex_one \<and>
   (\<exists>a'. vars ex_one 0 = Some a' \<and> unat (count a') = 1 \<and> elements ex_one a' = Some [Ptr 0 0])"
  using strarray_add_uniq_twice [OF ex_empty_facts(1-5) ex_empty_add_uniq]
  by (simp add: empty_strarray_def)

text \<open>
  C3 as stated fails for a string that the array holds already: on the array holding
  "a", two calls with "a" leave \<open>count\<close> at 1 instead of raising it by exactly 1.
\<close>

theorem strarray_add_uniq_present_counterexample:
  "(case strarray_add_uniq ex_one 0 (Ptr 0 0) of
      Inl e \<Rightarrow> None
    | Inr s1 \<Rightarrow> (case strarray_add_uniq s1 0 (Ptr 0 0) of
                   Inl e \<Rightarrow> None
                 | Inr s2 \<Rightarrow> map_option count (vars s2 0))) = Some 1 \<and>
   map_option count (vars ex_one 0) = Some 1 \<and> cstring ex_one (Ptr 0 0) = Some ''a''"
  by (simp add: ex_one_add_uniq ex_one_facts)

text \<open>
  C10. When no two elements of an array have the same text, this is still so after a
  call of \<^verbatim>\<open>strarray_add_uniq\<close> with any string, and after a call of
  \<^verbatim>\<open>strarray_addall_uniq\<close> with any array of strings, with duplicates of its own or
  not, sharing its buffer with the array or not; hence an array built from the empty
  array by these two operations only never holds two elements with the same text.
\<close>

theorem uniq_preserves_distinct:
  assumes ok: "heap_ok st" and ts: "array_texts st array = Some ts" and d: "distinct ts"
  shows "(\<forall>s st'. cstring st s \<noteq> None \<and> strarray_add_uniq st array s = Inr st' \<longrightarrow>
            (\<exists>ts'. array_texts st' array = Some ts' \<and> distinct ts')) \<and>
         (\<forall>added ys st'. elements st added = Some ys \<and> texts st ys \<noteq> None \<and>
            strarray_addall_uniq st array added = Inr st' \<longrightarrow>
            (\<exists>ts'. array_texts st' array = Some ts' \<and> distinct ts')) \<and>
         (\<forall>ops st'. vars st array = Some empty_strarray \<and> list_all (op_ok st) ops \<and>
            run_uniq_ops st array ops = Inr st' \<longrightarrow>
            (\<exists>ts'. array_texts st' array = Some ts' \<and> distinct ts'))"
proof -
  from ts obtain a xs where a: "vars st array = Some a" "elements st a = Some xs"
    "texts st xs = Some ts"
    by (auto simp: array_texts_Some)
  have 1: "\<exists>ts'. array_texts st' array = Some ts' \<and> distinct ts'"
    if "cstring st s \<noteq> None" "strarray_add_uniq st array s = Inr st'" for s st'
  proof -
    from that(1) obtain t where "cstring st s = Some t" by auto
    from strarray_add_uniq_step [OF ok a d this that(2)] show ?thesis
      by (auto simp: array_texts_Some)
  qed
  have 2: "\<exists>ts'. array_texts st' array = Some ts' \<and> distinct ts'"
    if "elements st added = Some ys" "texts st ys \<noteq> None"
      "strarray_addall_uniq st array added = Inr st'" for added ys st'
    using ok a d that by (rule strarray_addall_uniq_any_source)
  have 3: "\<exists>ts'. array_texts st' array = Some ts' \<and> distinct ts'"
    if "vars st array = Some empty_strarray" "list_all (op_ok st) ops"
      "run_uniq_ops st array ops = Inr st'" for ops st'
  proof -
    have "elements st empty_strarray = Some []" "str empty_strarray = Null"
      by (simp_all add: elements_def buffer_def empty_strarray_def)
    then show ?thesis
      using run_uniq_ops_distinct [OF ok ok _ _ _ that(1) _ _ _ _ that(2,3), of "[]" "[]"]
      by simp
  qed
  from 1 2 3 show ?thesis by blast
qed

theorem uniq_preserves_distinct_witness:
  "run_uniq_ops ex_empty 0 [Add_uniq (Ptr 0 0), Add_uniq (Ptr 0 0)] = Inr ex_one \<and>
   (\<exists>ts'. array_texts ex_one 0 = Some ts' \<and> distinct ts')"
proof -
  let ?ops = "[Add_uniq (Ptr 0 0), Add_uniq (Ptr 0 0)]"
  have r: "run_uniq_ops ex_empty 0 ?ops = Inr ex_one"
    by (simp add: ex_empty_add_uniq ex_one_add_uniq)
  have l: "list_all (op_ok ex_empty) ?ops"
    by (simp add: ex_empty_facts)
  have d: "distinct ([] :: string list)"
    by simp
  from uniq_preserves_distinct [OF ex_empty_facts(1,6) d] have
    "vars ex_empty 0 = Some empty_strarray \<and> list_all (op_ok ex_empty) ?ops \<and>
       run_uniq_ops ex_empty 0 ?ops = Inr ex_one \<longrightarrow>
     (\<exists>ts'. array_texts ex_one 0 = Some ts' \<and> distinct ts')"
    by blast
  with r l ex_empty_facts(2) show ?thesis
    by blast
qed



text \<open>
  C8, as the code has it. \<^verbatim>\<open>strarray_addall(&a, a)\<close> runs over the count that \<open>a\<close>
  had at the call. When the buffer has room for the second copy, so that it is not
  reallocated while the elements are read, the call returns, the array holds its
  elements twice and \<open>count\<close> is doubled.
\<close>

theorem strarray_addall_self:
  assumes ok: "heap_ok st" and v: "vars st array = Some a" and el: "elements st a = Some xs"
    and room: "2 * unat (count a) \<le> unat (size_sa a)"
  shows "\<exists>st' a'. strarray_addall st array a = Inr st' \<and> vars st' array = Some a' \<and>
           elements st' a' = Some (xs @ xs) \<and> unat (count a') = 2 * unat (count a)"
proof -
  have m: "length xs = unat (count a)"
    using el by (rule elements_length)
  have rd: "\<forall>j. unat (0 :: 32 word) \<le> j \<and> j < length xs \<longrightarrow> load_slot st (str a) j = Inr (xs ! j)"
    using elements_load_slot [OF el] by simp
  have off: "\<forall>b off. str a = Ptr b off \<longrightarrow> off = 0"
    using el by (auto simp: elements_def buffer_def split: option.splits obj.splits if_splits)
  from addall_loop_noresize [OF m off ok v el rd] room m obtain st' a' where
    r: "addall_loop st array a 0 = Inr st'" "vars st' array = Some a'"
      "elements st' a' = Some (xs @ drop (unat (0 :: 32 word)) xs)"
    by auto
  from r(3) have e: "elements st' a' = Some (xs @ xs)" by simp
  from elements_length [OF e] m have "unat (count a') = 2 * unat (count a)" by simp
  with r e show ?thesis
    by (auto simp: strarray_addall_def)
qed

theorem strarray_addall_self_witness:
  "\<exists>st' a'. strarray_addall ex_one 0 \<lparr>count = 1, size_sa = 16, str = Ptr 1 0\<rparr> = Inr st' \<and>
     vars st' 0 = Some a' \<and> elements st' a' = Some [Ptr 0 0, Ptr 0 0] \<and> unat (count a') = 2"
  using strarray_addall_self [OF ex_one_facts(1-3)] by simp

text \<open>
  C8 as stated fails for a full array: with sixteen elements in sixteen slots the first
  \<^verbatim>\<open>strarray_add\<close> reallocates the buffer, and the second iteration reads
  \<^verbatim>\<open>added.str[1]\<close> from the block that \<^verbatim>\<open>realloc\<close> has freed.
\<close>

theorem strarray_addall_self_counterexample:
  "elements ex_full \<lparr>count = 16, size_sa = 16, str = Ptr 1 0\<rparr> = Some (replicate 16 (Ptr 0 0)) \<and>
   vars ex_full 0 = Some \<lparr>count = 16, size_sa = 16, str = Ptr 1 0\<rparr> \<and>
   strarray_addall ex_full 0 \<lparr>count = 16, size_sa = 16, str = Ptr 1 0\<rparr> = Inl Fault"
  apply (simp add: ex_full_def elements_def buffer_def strarray_addall_def)
  apply (subst addall_loop.simps)
  apply (simp add: load_slot_def strarray_add_def xrealloc_def realloc_def alloc_def free_def store_slot_def)
  apply (subst addall_loop.simps)
  apply (simp add: load_slot_def)
  done

text \<open>
  C7. For an array sorted by a comparison function that orders the key and the
  elements, \<^verbatim>\<open>strarray_bsearch\<close> with that function returns an element that compares
  equal to the key whenever the array has one, and null whenever it has none.
\<close>

theorem strarray_bsearch_correct:
  assumes v: "vars st array = Some a" and el: "elements st a = Some xs"
    and ord: "ordering_on (insert key (set xs)) func" and srt: "sorted_by func xs"
  shows "((\<exists>x\<in>set xs. func key x = 0) \<longrightarrow>
            (\<exists>r\<in>set xs. strarray_bsearch st array key func = Inr r \<and> func key r = 0)) \<and>
         ((\<forall>x\<in>set xs. func key x \<noteq> 0) \<longrightarrow> strarray_bsearch st array key func = Inr Null)"
proof (cases "count a = 0")
  case True
  with elements_length [OF el] have "xs = []" by simp
  with v True show ?thesis
    by (simp add: strarray_bsearch_def)
next
  case False
  have n: "length xs = unat (count a)" using el by (rule elements_length)
  with False have "xs \<noteq> []" by (auto simp: unat_eq_0)
  with el obtain b where b: "str a = Ptr b 0"
    by (auto simp: elements_def buffer_def split: ptr.splits option.splits obj.splits if_splits)
  have rd: "\<forall>j<length xs. load_slot st (str a) j = Inr (xs ! j)"
    using elements_load_slot [OF el] by simp
  have mem: "\<And>i. i < length xs \<Longrightarrow> xs ! i \<in> insert key (set xs)" by simp
  have lo: "\<forall>i j. i \<le> j \<and> j < length xs \<and> func key (xs ! i) < 0 \<longrightarrow> func key (xs ! j) < 0"
  proof (intro allI impI)
    fix i j assume h: "i \<le> j \<and> j < length xs \<and> func key (xs ! i) < 0"
    show "func key (xs ! j) < 0"
    proof (cases "i = j")
      case True with h show ?thesis by simp
    next
      case False
      with h srt have "func (xs ! i) (xs ! j) \<le> 0" by (simp add: sorted_by_def)
      with ordering_on_less_trans [OF ord _ mem mem, of key i j] h show ?thesis by simp
    qed
  qed
  have hi: "\<forall>i j. i \<le> j \<and> j < length xs \<and> func key (xs ! j) > 0 \<longrightarrow> func key (xs ! i) > 0"
  proof (intro allI impI)
    fix i j assume h: "i \<le> j \<and> j < length xs \<and> func key (xs ! j) > 0"
    show "func key (xs ! i) > 0"
    proof (cases "i = j")
      case True with h show ?thesis by simp
    next
      case False
      with h srt have "func (xs ! i) (xs ! j) \<le> 0" by (simp add: sorted_by_def)
      with ordering_on_greater_trans [OF ord _ mem mem, of key j i] h show ?thesis by simp
    qed
  qed
  from bsearch_loop_correct [where func = func and key = key and xs = xs and st = st
      and base = "str a" and l = 0 and u = "length xs", OF rd lo hi] consider
    (none) "bsearch_loop func st key (str a) 0 (length xs) = Inr Null"
      "\<forall>j<length xs. func key (xs ! j) \<noteq> 0"
    | (found) j where "j < length xs"
      "bsearch_loop func st key (str a) 0 (length xs) = Inr (ptr_add (str a) j)"
      "func key (xs ! j) = 0"
    by auto
  then show ?thesis
  proof cases
    case none
    from none(2) have "\<forall>x\<in>set xs. func key x \<noteq> 0"
      by (metis in_set_conv_nth)
    with none(1) v False n show ?thesis
      by (simp add: strarray_bsearch_def bsearch_def)
  next
    case found
    have "load_slot st (Ptr b j) 0 = Inr (xs ! j)"
      using rd found(1) b by (simp add: load_slot_offset)
    with found v False n b have "strarray_bsearch st array key func = Inr (xs ! j)"
      by (simp add: strarray_bsearch_def bsearch_def ptr_add_def)
    with found show ?thesis
      by (metis nth_mem)
  qed
qed

theorem strarray_bsearch_correct_witness:
  "strarray_bsearch ex_two 0 (Ptr 3 0) (strcmp_func ex_two) = Inr (Ptr 3 0) \<and>
   strarray_bsearch ex_two 0 (Ptr 4 0) (strcmp_func ex_two) = Inr Null"
proof -
  have s: "sorted_by (strcmp_func ex_two) [Ptr 2 0, Ptr 3 0]"
    by (auto simp: sorted_by_def ex_two_strcmp nth_Cons split: nat.splits)
  have o1: "ordering_on (insert (Ptr 3 0) (set [Ptr 2 0, Ptr 3 0])) (strcmp_func ex_two)"
    by (simp add: ordering_on_def ex_two_strcmp)
  have o2: "ordering_on (insert (Ptr 4 0) (set [Ptr 2 0, Ptr 3 0])) (strcmp_func ex_two)"
    by (simp add: ordering_on_def ex_two_strcmp)
  from strarray_bsearch_correct [OF ex_two_facts o1 s] have
    "strarray_bsearch ex_two 0 (Ptr 3 0) (strcmp_func ex_two) = Inr (Ptr 3 0)"
    by (auto simp: ex_two_strcmp)
  moreover from strarray_bsearch_correct [OF ex_two_facts o2 s] have
    "strarray_bsearch ex_two 0 (Ptr 4 0) (strcmp_func ex_two) = Inr Null"
    by (simp add: ex_two_strcmp)
  ultimately show ?thesis by simp
qed

text \<open>
  C9. For every format and arguments that the formatting engine renders to a text,
  \<^verbatim>\<open>strmake\<close> leaves its loop after finitely many iterations. Whenever it returns,
  the result points to a new block that holds the whole text and a NUL after it. It
  returns whenever the text is shorter than the largest \<^verbatim>\<open>int\<close> and the allocator
  has room for the largest buffer tried; otherwise the run ends in \<^verbatim>\<open>exit(1)\<close>, or
  in the overflow of \<^verbatim>\<open>n + 1\<close>.
\<close>

theorem strmake_terminates:
  assumes r: "renders ret out" and ok: "heap_ok st"
  shows "\<exists>res. strmake ret out st = Some res \<and>
           (\<forall>p st'. res = Inr (p, st') \<longrightarrow>
              strmake_post out st p st' \<and> (NUL \<notin> set out \<longrightarrow> cstring st' p = Some out)) \<and>
           (length out < 2 ^ 31 - 1 \<and> max 100 (2 * length out) \<le> avail st \<longrightarrow>
              (\<exists>p st'. res = Inr (p, st')))"
proof -
  have "0 < unat (100 :: 64 word)" "unat (100 :: 64 word) \<le> max 100 (2 * length out)"
    by simp_all
  from strmake_loop_correct [OF r ok this] obtain res where
    res: "strmake_loop ret out st 100 = Some res"
    "\<forall>p st'. res = Inr (p, st') \<longrightarrow> strmake_post out st p st'"
    "length out < 2 ^ 31 - 1 \<and> max 100 (2 * length out) \<le> avail st \<longrightarrow>
       (\<exists>p st'. res = Inr (p, st'))"
    by blast
  have "cstring st' p = Some out" if "strmake_post out st p st'" "NUL \<notin> set out" for p st'
  proof -
    from that(1) obtain b bs where
      b: "p = Ptr b 0" "mem st' b = Some (Bytes bs)" "take (Suc (length out)) bs = out @ [NUL]"
      by (auto simp: strmake_post_def)
    from cstring_prefix [of st' b bs out 0] b that(2) show ?thesis by simp
  qed
  with res show ?thesis
    by (auto simp: strmake_def)
qed

theorem strmake_terminates_witness:
  "\<exists>p st'. strmake (\<lambda>n. if n \<le> 150 then - 1 else 150) (replicate 150 (CHR ''x'')) ex_printf
       = Some (Inr (p, st')) \<and> cstring st' p = Some (replicate 150 (CHR ''x''))"
proof -
  have r: "renders (\<lambda>n. if n \<le> 150 then - 1 else 150) (replicate 150 (CHR ''x''))"
    by (simp add: renders_def)
  have ok: "heap_ok ex_printf"
    by (simp add: heap_ok_def ex_printf_def)
  have a: "length (replicate 150 (CHR ''x'')) < 2 ^ 31 - 1 \<and>
      max 100 (2 * length (replicate 150 (CHR ''x''))) \<le> avail ex_printf"
    by (simp add: ex_printf_def)
  have n: "NUL \<notin> set (replicate 150 (CHR ''x''))"
    by simp
  from strmake_terminates [OF r ok] a n show ?thesis
    by blast
qed

text \<open>
  C5. \<^verbatim>\<open>strarray_fromstring(str, delim)\<close> returns from every state in which both
  arguments are strings, and it returns an array whenever the input is shorter than
  \<open>2 ^ 31 - 1\<close> bytes and the allocator has 26 bytes for each byte of the input with its
  NUL and 128 more; with less memory the call may end in \<^verbatim>\<open>exit(1)\<close>. The
  elements of the array hold \<open>split_tokens\<close> of the input, the maximal runs of
  characters that are not in \<open>delim\<close>, in their order, and \<open>count\<close> is their number:
  no element is empty, an input that is empty or has delimiter characters only gives
  \<open>count\<close> 0, and "a:b::c" split at ":" gives exactly "a", "b", "c".
\<close>

theorem strarray_fromstring_tokens:
  assumes ok: "heap_ok st" and cs: "cstring st s = Some inp" and cd: "cstring st delim = Some d"
  shows "\<exists>res. strarray_fromstring st s delim = Some res \<and>
           (\<forall>a st'. res = Inr (a, st') \<longrightarrow>
              (\<exists>xs ts. elements st' a = Some xs \<and> texts st' xs = Some ts \<and>
                 ts = split_tokens d inp \<and> [] \<notin> set ts \<and>
                 unat (count a) = length ts \<and>
                 (set inp \<subseteq> set d \<longrightarrow> count a = 0) \<and>
                 (inp = ''a:b::c'' \<and> d = '':'' \<longrightarrow> ts = [''a'', ''b'', ''c'']))) \<and>
           (length inp < 2 ^ 31 - 1 \<and> 26 * Suc (length inp) + 128 \<le> avail st \<longrightarrow>
              (\<exists>a st'. res = Inr (a, st')))"
proof -
  define array where "array = sp st"
  define st0 where "st0 = st\<lparr>vars := (vars st)(sp st \<mapsto> empty_strarray), sp := Suc (sp st)\<rparr>"
  have pv: "push_var st empty_strarray = (array, st0)"
    by (simp add: push_var_def array_def st0_def)
  have ok0: "heap_ok st0"
    using ok by (simp add: heap_ok_def st0_def)
  have cs0: "\<And>q. cstring st0 q = cstring st q"
    by (simp add: cstring_def st0_def split: ptr.splits)
  have c0: "cstring st0 s = Some inp"
    using cs cs0 by simp
  show ?thesis
  proof (cases "Suc (length inp) \<le> avail st0")
    case False
    then have "xstrdup st0 s = Inl Exit1"
      using xstrdup_cases [OF ok0 c0] by simp
    moreover have "\<not> 26 * Suc (length inp) + 128 \<le> avail st"
      using False by (simp add: st0_def)
    ultimately show ?thesis
      by (simp add: strarray_fromstring_def pv)
  next
    case True
    define b where "b = nxt st"
    define st1 where "st1 = st0\<lparr>mem := (mem st0)(nxt st0 \<mapsto> Bytes (inp @ [NUL])),
        nxt := Suc (nxt st0), avail := avail st0 - Suc (length inp)\<rparr>"
    have n0: "nxt st0 = b" by (simp add: st0_def b_def)
    have xd: "xstrdup st0 s = Inr (Ptr b 0, st1)"
      using xstrdup_cases [OF ok0 c0] True by (simp add: st1_def n0)
    have ok1: "heap_ok st1"
      using ok0 by (simp add: heap_ok_def st1_def)
    have m1: "\<And>c. c \<noteq> b \<Longrightarrow> mem st1 c = mem st c"
      by (simp add: st1_def st0_def b_def)
    from cstring_live [OF cd] obtain c o' bs where dp: "delim = Ptr c o'" "mem st c = Some (Bytes bs)"
      by blast
    then have "c \<noteq> b" using live_below_nxt [OF ok] by (fastforce simp: b_def)
    with dp have dl: "\<not> in_block b delim"
      by (simp add: in_block_def)
    have cd1: "cstring st1 delim = Some d"
      using cstring_other_block [of b st1 st delim, OF m1 dl] cd by simp
    have "mem st1 b = Some (Bytes ([] @ inp @ NUL # []))"
      by (simp add: st1_def n0)
    then have cb1: "cstring st1 (Ptr b 0) = Some inp"
      using cstring_no_NUL [OF cs] by (intro cstring_intro) simp_all
    have start: "(if Ptr b 0 \<noteq> Null then Ptr b 0 else tok_save st1) = Ptr b 0"
      by simp
    from strtok_spec [OF cd1 start cb1] obtain tok st2 bs' off' where
      sk: "strtok st1 (Ptr b 0) delim = Inr (tok, st2)"
      and m2: "mem st2 = (mem st1)(b \<mapsto> Bytes bs')" and v2: "vars st2 = vars st1"
      and n2: "nxt st2 = nxt st1" and av2: "avail st2 = avail st1"
      and sv2: "tok_save st2 = Ptr b off'"
      and cases2: "if dropWhile (\<lambda>c. c \<in> set d) inp = []
        then tok = Null \<and> cstring st2 (tok_save st2) = Some []
        else (\<exists>k. tok = Ptr b k) \<and>
             cstring st2 tok = Some (takeWhile (\<lambda>c. c \<notin> set d)
                (dropWhile (\<lambda>c. c \<in> set d) inp)) \<and>
             cstring st2 (tok_save st2) = Some (drop 1 (dropWhile (\<lambda>c. c \<notin> set d)
                (dropWhile (\<lambda>c. c \<in> set d) inp)))"
      by blast
    have ok2: "heap_ok st2"
      using ok1 by (auto simp: heap_ok_def m2 n2 st1_def n0)
    have m2o: "\<And>c. c \<noteq> b \<Longrightarrow> mem st2 c = mem st1 c"
      by (simp add: m2)
    have cd2: "cstring st2 delim = Some d"
      using cstring_other_block [of b st2 st1 delim, OF m2o dl] cd1 by simp
    have va2: "vars st2 array = Some empty_strarray"
      by (simp add: v2 st1_def st0_def array_def)
    have el2: "elements st2 empty_strarray = Some []"
      by (simp add: elements_def buffer_def empty_strarray_def)
    have ts2: "texts st2 [] = Some []" by simp
    have nb2: "\<forall>p\<in>set []. \<not> in_block b p" by simp
    obtain rest where cr2: "cstring st2 (Ptr b off') = Some rest"
      and arg: "(tok = Null \<and> split_tokens d inp = []) \<or>
        (\<exists>k token. tok = Ptr b k \<and> cstring st2 tok = Some token \<and>
           split_tokens d inp = token # split_tokens d rest)"
    proof (cases "dropWhile (\<lambda>c. c \<in> set d) inp = []")
      case True
      with cases2 have "tok = Null" "cstring st2 (tok_save st2) = Some []"
        by (simp_all only: if_True)
      moreover have "split_tokens d inp = []"
        using True by (rule split_tokens_Nil)
      ultimately show ?thesis
        using that [of "[]"] sv2 by simp
    next
      case False
      define token where "token = takeWhile (\<lambda>c. c \<notin> set d) (dropWhile (\<lambda>c. c \<in> set d) inp)"
      define rest where "rest = drop 1 (dropWhile (\<lambda>c. c \<notin> set d) (dropWhile (\<lambda>c. c \<in> set d) inp))"
      from cases2 False have "(\<exists>k. tok = Ptr b k) \<and> cstring st2 tok = Some token \<and>
          cstring st2 (tok_save st2) = Some rest"
        unfolding token_def rest_def by (simp only: if_False)
      moreover have "split_tokens d inp = token # split_tokens d rest"
        unfolding token_def rest_def using False by (rule split_tokens_Cons)
      ultimately show ?thesis
        using that [of rest] sv2 by auto
    qed
    from fromstring_loop_correct [OF dl ok2 va2 el2 ts2 nb2 cd2 sv2 cr2 arg] obtain res where
      r: "fromstring_loop st2 array delim tok = Some res"
      and post: "\<forall>st'. res = Inr st' \<longrightarrow>
         (\<exists>a' xs'. vars st' array = Some a' \<and> elements st' a' = Some xs' \<and>
            texts st' xs' = Some ([] @ split_tokens d inp) \<and> (\<forall>p\<in>set xs'. \<not> in_block b p) \<and>
            (\<exists>bs. mem st' b = Some (Bytes bs)) \<and> heap_ok st' \<and> sp st' = sp st2 \<and>
            (\<forall>v. v \<noteq> array \<longrightarrow> vars st' v = vars st2 v))"
      and prog: "tokens_fit empty_strarray (split_tokens d inp) (avail st2) \<longrightarrow>
         (\<exists>st'. res = Inr st')"
      by blast
    have fit: "tokens_fit empty_strarray (split_tokens d inp) (avail st2)"
      if b: "length inp < 2 ^ 31 - 1" "26 * Suc (length inp) + 128 \<le> avail st"
    proof -
      have "avail st2 = avail st - Suc (length inp)"
        by (simp add: av2 st1_def st0_def)
      with b split_tokens_weight [of d inp] split_tokens_count [of d inp] show ?thesis
        by (simp add: tokens_fit_def empty_strarray_def)
    qed
    show ?thesis
    proof (cases res)
      case (Inl e)
      with r have "strarray_fromstring st s delim = Some (Inl e)"
        by (simp add: strarray_fromstring_def pv xd sk)
      moreover have "\<not> (length inp < 2 ^ 31 - 1 \<and> 26 * Suc (length inp) + 128 \<le> avail st)"
        using fit prog Inl by blast
      ultimately show ?thesis by simp
    next
      case (Inr st3)
      with post obtain a' xs' bs3 where
        p3: "vars st3 array = Some a'" "elements st3 a' = Some xs'"
          "texts st3 xs' = Some (split_tokens d inp)" "\<forall>p\<in>set xs'. \<not> in_block b p"
          "mem st3 b = Some (Bytes bs3)"
        by auto
      define st4 where "st4 = st3\<lparr>mem := (mem st3)(b := None),
          avail := avail st3 + obj_bytes (Bytes bs3)\<rparr>"
      have fr: "free st3 (Ptr b 0) = Inr st4"
        using p3(5) by (simp add: free_def st4_def)
      have va4: "vars st4 array = Some a'"
        using p3(1) by (simp add: st4_def)
      have res: "strarray_fromstring st s delim = Some (Inr (a', pop_var st4 array))"
        using r Inr by (simp add: strarray_fromstring_def pv xd sk fr va4)
      let ?st' = "pop_var st4 array"
      have mo: "\<And>c. c \<noteq> b \<Longrightarrow> mem ?st' c = mem st3 c"
        by (simp add: pop_var_def st4_def)
      have el': "elements ?st' a' = Some xs'"
      proof -
        have "elements ?st' a' = elements st3 a'"
        proof (rule elements_same_block)
          fix c o' assume "str a' = Ptr c o'"
          from elements_live [OF p3(2) this] obtain ps where "mem st3 c = Some (Slots ps)" ..
          with p3(5) have "c \<noteq> b" by auto
          then show "mem ?st' c = mem st3 c" by (rule mo)
        qed
        with p3(2) show ?thesis by simp
      qed
      have ts': "texts ?st' xs' = Some (split_tokens d inp)"
      proof -
        have "texts ?st' xs' = texts st3 xs'"
        proof (rule texts_pointwise)
          fix q assume "q \<in> set xs'"
          with p3(4) have "\<not> in_block b q" by blast
          with mo show "cstring ?st' q = cstring st3 q" by (rule cstring_other_block)
        qed
        with p3(3) show ?thesis by simp
      qed
      have cnt: "count a' = 0" if "set inp \<subseteq> set d"
      proof -
        from that have "split_tokens d inp = []" by (rule split_tokens_only_delims)
        with texts_length [OF ts'] have "xs' = []" by simp
        with elements_length [OF el'] show ?thesis by (simp add: unat_eq_0)
      qed
      have n: "unat (count a') = length (split_tokens d inp)"
        using elements_length [OF el'] texts_length [OF ts'] by simp
      from res el' ts' cnt n show ?thesis
        using split_tokens_no_empty [of d inp] split_tokens_example by auto
    qed
  qed
qed

theorem strarray_fromstring_tokens_witness:
  "\<exists>a st' xs. strarray_fromstring ex_split (Ptr 0 0) (Ptr 1 0) = Some (Inr (a, st')) \<and>
     count a = 3 \<and> elements st' a = Some xs \<and> texts st' xs = Some [''a'', ''b'', ''c'']"
proof -
  define inp where "inp = ''a:b::c''"
  define d where "d = '':''"
  have cs: "cstring ex_split (Ptr 0 0) = Some inp" and cd: "cstring ex_split (Ptr 1 0) = Some d"
    unfolding inp_def d_def by (rule ex_split_facts)+
  have b: "length inp < 2 ^ 31 - 1 \<and> 26 * Suc (length inp) + 128 \<le> avail ex_split"
    by (simp add: ex_split_def inp_def)
  have e: "inp = ''a:b::c'' \<and> d = '':''"
    by (simp add: inp_def d_def)
  from strarray_fromstring_tokens [OF ex_split_facts(1) cs cd] obtain res where
    r: "strarray_fromstring ex_split (Ptr 0 0) (Ptr 1 0) = Some res"
    and post: "\<forall>a st'. res = Inr (a, st') \<longrightarrow>
       (\<exists>xs ts. elements st' a = Some xs \<and> texts st' xs = Some ts \<and>
          ts = split_tokens d inp \<and> [] \<notin> set ts \<and> unat (count a) = length ts \<and>
          (set inp \<subseteq> set d \<longrightarrow> count a = 0) \<and>
          (inp = ''a:b::c'' \<and> d = '':'' \<longrightarrow> ts = [''a'', ''b'', ''c'']))"
    and prog: "length inp < 2 ^ 31 - 1 \<and> 26 * Suc (length inp) + 128 \<le> avail ex_split
       \<longrightarrow> (\<exists>a st'. res = Inr (a, st'))"
    by (elim exE conjE)
  from prog b obtain a st' where res: "res = Inr (a, st')"
    by (elim impE exE)
  from post [rule_format, OF res] obtain xs ts where
    xs: "elements st' a = Some xs" "texts st' xs = Some ts" "unat (count a) = length ts"
      "inp = ''a:b::c'' \<and> d = '':'' \<longrightarrow> ts = [''a'', ''b'', ''c'']"
    by (elim exE conjE)
  from xs(4) e have ts: "ts = [''a'', ''b'', ''c'']"
    by (rule mp)
  from xs(3) have "count a = 3"
    unfolding ts by (simp add: word_unat_eq_iff)
  with r res xs(1,2) ts show ?thesis
    by (intro exI [of _ a] exI [of _ st'] exI [of _ xs]) simp
qed

text \<open>
  C6. When \<^verbatim>\<open>strarray_tostring(array, sep)\<close> returns, the result points to the start of
  a block that did not exist before, different from the string literal \<^verbatim>\<open>""\<close>, and
  holds the join of the element texts: the empty string when \<open>count\<close> is 0; for
  \<open>count\<close> at least 1 the first text followed by the \<open>count - 1\<close> further texts, each
  with the separator before it. No other block and no array variable is changed. The
  call returns whenever the result with its NUL is shorter than \<open>2 ^ 32\<close> bytes, the
  range of \<^verbatim>\<open>len\<close>, and the allocator has that many bytes.
\<close>

theorem strarray_tostring_joined:
  assumes ok: "heap_ok st" and el: "elements st a = Some xs" and ts: "texts st xs = Some ts"
    and sep: "cstring st sep = Some sv" and lit: "cstring st lit_empty = Some []"
  shows "(\<forall>res st'. strarray_tostring st a sep = Inr (res, st') \<longrightarrow>
            (\<exists>b. res = Ptr b 0 \<and> mem st b = None \<and> res \<noteq> lit_empty \<and>
                 cstring st' res = Some (joined sv ts) \<and>
                 (\<forall>c. c \<noteq> b \<longrightarrow> mem st' c = mem st c) \<and> vars st' = vars st)) \<and>
         (count a = 0 \<longrightarrow> joined sv ts = []) \<and>
         (count a \<noteq> 0 \<longrightarrow>
            joined sv ts = ts ! 0 @ concat (map (\<lambda>u. sv @ u) (tl ts)) \<and>
            length (tl ts) = unat (count a) - 1) \<and>
         (length (joined sv ts) < 2 ^ 32 - 1 \<and> Suc (length (joined sv ts)) \<le> avail st \<longrightarrow>
            (\<exists>res st'. strarray_tostring st a sep = Inr (res, st')))"
proof -
  have len: "length xs = unat (count a)" "length ts = length xs"
    using elements_length [OF el] texts_length [OF ts] by simp_all
  have fresh: "mem st (nxt st) = None"
    using ok by (rule heap_ok_fresh)
  from fresh_cstring [OF fresh lit] have nl: "Ptr (nxt st) 0 \<noteq> lit_empty"
    by (auto simp: in_block_def lit_empty_def)
  have shape: "joined sv ts = ts ! 0 @ concat (map (\<lambda>u. sv @ u) (tl ts)) \<and>
      length (tl ts) = unat (count a) - 1" if "count a \<noteq> 0"
  proof -
    from that have "0 < unat (count a)" by (simp add: unat_gt_0)
    then obtain t us where "ts = t # us" using len by (cases ts) auto
    with len show ?thesis by simp
  qed
  have empty: "joined sv ts = []" if "count a = 0"
    using that len by simp
  have post: "\<exists>b. res = Ptr b 0 \<and> mem st b = None \<and> res \<noteq> lit_empty \<and>
      cstring st' res = Some (joined sv ts) \<and>
      (\<forall>c. c \<noteq> b \<longrightarrow> mem st' c = mem st c) \<and> vars st' = vars st"
    if r: "strarray_tostring st a sep = Inr (res, st')" for res st'
  proof (cases "count a = 0")
    case True
    from r strarray_tostring_empty [OF ok sep lit True] have
      rs: "res = Ptr (nxt st) 0" and
      st': "st' = st\<lparr>mem := (mem st)(nxt st \<mapsto> Bytes [NUL]), nxt := Suc (nxt st),
                avail := avail st - Suc 0\<rparr>"
      by (simp_all split: if_splits)
    have "cstring st' res = Some []"
      by (simp add: rs st' cstring_def)
    then have "cstring st' res = Some (joined sv ts)"
      using empty [OF True] by simp
    moreover have "(\<forall>c. c \<noteq> nxt st \<longrightarrow> mem st' c = mem st c) \<and> vars st' = vars st"
      by (simp add: st')
    ultimately show ?thesis
      using rs fresh nl by blast
  next
    case False
    from strarray_tostring_nonempty [OF ok el ts sep False] r have
      "res = Ptr (nxt st) 0 \<and> cstring st' res = Some (joined sv ts) \<and>
       (\<forall>c. c \<noteq> nxt st \<longrightarrow> mem st' c = mem st c) \<and> vars st' = vars st"
      by blast
    then show ?thesis
      using fresh nl by blast
  qed
  have prog: "\<exists>res st'. strarray_tostring st a sep = Inr (res, st')"
    if small: "length (joined sv ts) < 2 ^ 32 - 1" and av: "Suc (length (joined sv ts)) \<le> avail st"
  proof (cases "count a = 0")
    case True
    from av have "Suc 0 \<le> avail st" by linarith
    then show ?thesis
      using strarray_tostring_empty [OF ok sep lit True] by simp
  next
    case False
    from strarray_tostring_nonempty [OF ok el ts sep False] small av show ?thesis
      by blast
  qed
  show ?thesis
  proof (intro conjI allI impI)
    fix res st' assume "strarray_tostring st a sep = Inr (res, st')"
    then show "\<exists>b. res = Ptr b 0 \<and> mem st b = None \<and> res \<noteq> lit_empty \<and>
      cstring st' res = Some (joined sv ts) \<and>
      (\<forall>c. c \<noteq> b \<longrightarrow> mem st' c = mem st c) \<and> vars st' = vars st"
      by (rule post)
  next
    assume "count a = 0" then show "joined sv ts = []" by (rule empty)
  next
    assume "count a \<noteq> 0"
    then show "joined sv ts = ts ! 0 @ concat (map (\<lambda>u. sv @ u) (tl ts))"
      using shape by blast
  next
    assume "count a \<noteq> 0"
    then show "length (tl ts) = unat (count a) - 1"
      using shape by blast
  next
    assume "length (joined sv ts) < 2 ^ 32 - 1 \<and> Suc (length (joined sv ts)) \<le> avail st"
    then show "\<exists>res st'. strarray_tostring st a sep = Inr (res, st')"
      using prog by blast
  qed
qed

theorem strarray_tostring_joined_witness:
  "\<exists>res st'. strarray_tostring ex_join \<lparr>count = 2, size_sa = 16, str = Ptr 5 0\<rparr> (Ptr 4 0)
       = Inr (res, st') \<and> cstring st' res = Some ''a/b''"
proof -
  have "length (joined ''/'' [''a'', ''b'']) < 2 ^ 32 - 1 \<and>
      Suc (length (joined ''/'' [''a'', ''b''])) \<le> avail ex_join"
    by (simp add: ex_join_def)
  with strarray_tostring_joined [OF ex_join_facts] obtain res st' where
    r: "strarray_tostring ex_join \<lparr>count = 2, size_sa = 16, str = Ptr 5 0\<rparr> (Ptr 4 0)
       = Inr (res, st')"
    by blast
  with strarray_tostring_joined [OF ex_join_facts] have
    "cstring st' res = Some (joined ''/'' [''a'', ''b''])"
    by blast
  with r show ?thesis
    by simp
qed

end
